theory Spec2Isabelle
  imports Main "HOL-Library.Sublist" "HOL-Library.AList"
begin

section \<open>Strings of code points\<close>

text \<open>
  A Python \<open>str\<close> is a sequence of Unicode code points, so a string is a list of
  natural numbers. \<open>ustr\<close> reads an ASCII literal.
\<close>

type_synonym ustring = "nat list"

definition ustr :: "string \<Rightarrow> ustring" where
  "ustr s = map of_char s"

abbreviation hyphen :: nat where "hyphen \<equiv> 45"
abbreviation dot :: nat where "dot \<equiv> 46"
abbreviation slash :: nat where "slash \<equiv> 47"
abbreviation underscore :: nat where "underscore \<equiv> 95"
abbreviation percent :: nat where "percent \<equiv> 37"

subsection \<open>The standard library the scripts call\<close>

text \<open>
  \<open>unicodedata.normalize('NFD', _)\<close> and \<open>unicodedata.combining\<close> read the Unicode
  character database, which is not part of the repository: they are a parameter of
  the model. \<open>ascii_faithful\<close> states the two facts of the database the proofs use:
  a string of ASCII characters is its own canonical decomposition, and no ASCII
  character is a combining mark.
\<close>

record unicodedata =
  normalize_NFD :: "ustring \<Rightarrow> ustring"
  combining :: "nat \<Rightarrow> nat"

definition is_ascii :: "nat \<Rightarrow> bool" where
  "is_ascii c = (c < 128)"

definition ascii_faithful :: "unicodedata \<Rightarrow> bool" where
  "ascii_faithful ud =
     ((\<forall>s. list_all is_ascii s \<longrightarrow> normalize_NFD ud s = s) \<and>
      (\<forall>c. is_ascii c \<longrightarrow> combining ud c = 0))"

text \<open>
  The part of the database for the Latin-1 letters with a diacritic (U+00C0 to U+00FF):
  base letter, combining mark. Used for the concrete runs below.
\<close>

definition latin1_table :: "(nat \<times> nat \<times> nat) list" where
  "latin1_table =
     [(0xC0, 0x41, 0x300), (0xC1, 0x41, 0x301), (0xC2, 0x41, 0x302), (0xC3, 0x41, 0x303),
      (0xC4, 0x41, 0x308), (0xC5, 0x41, 0x30A), (0xC7, 0x43, 0x327), (0xC8, 0x45, 0x300),
      (0xC9, 0x45, 0x301), (0xCA, 0x45, 0x302), (0xCB, 0x45, 0x308), (0xCC, 0x49, 0x300),
      (0xCD, 0x49, 0x301), (0xCE, 0x49, 0x302), (0xCF, 0x49, 0x308), (0xD1, 0x4E, 0x303),
      (0xD2, 0x4F, 0x300), (0xD3, 0x4F, 0x301), (0xD4, 0x4F, 0x302), (0xD5, 0x4F, 0x303),
      (0xD6, 0x4F, 0x308), (0xD9, 0x55, 0x300), (0xDA, 0x55, 0x301), (0xDB, 0x55, 0x302),
      (0xDC, 0x55, 0x308), (0xDD, 0x59, 0x301), (0xE0, 0x61, 0x300), (0xE1, 0x61, 0x301),
      (0xE2, 0x61, 0x302), (0xE3, 0x61, 0x303), (0xE4, 0x61, 0x308), (0xE5, 0x61, 0x30A),
      (0xE7, 0x63, 0x327), (0xE8, 0x65, 0x300), (0xE9, 0x65, 0x301), (0xEA, 0x65, 0x302),
      (0xEB, 0x65, 0x308), (0xEC, 0x69, 0x300), (0xED, 0x69, 0x301), (0xEE, 0x69, 0x302),
      (0xEF, 0x69, 0x308), (0xF1, 0x6E, 0x303), (0xF2, 0x6F, 0x300), (0xF3, 0x6F, 0x301),
      (0xF4, 0x6F, 0x302), (0xF5, 0x6F, 0x303), (0xF6, 0x6F, 0x308), (0xF9, 0x75, 0x300),
      (0xFA, 0x75, 0x301), (0xFB, 0x75, 0x302), (0xFC, 0x75, 0x308), (0xFD, 0x79, 0x301),
      (0xFF, 0x79, 0x308)]"

definition decompose_latin1 :: "nat \<Rightarrow> ustring" where
  "decompose_latin1 c =
     (case map_of latin1_table c of None \<Rightarrow> [c] | Some (b, m) \<Rightarrow> [b, m])"

definition combining_latin1 :: "nat \<Rightarrow> nat" where
  "combining_latin1 c =
     (if c \<in> set [0x300, 0x301, 0x302, 0x303, 0x308, 0x30A] then 230
      else if c = 0x327 then 202 else 0)"

definition ucd_latin1 :: unicodedata where
  "ucd_latin1 =
     \<lparr>normalize_NFD = (\<lambda>s. concat (map decompose_latin1 s)),
      combining = combining_latin1\<rparr>"

section \<open>The normalizer\<close>

subsection \<open>remove_accents\<close>

definition remove_accents :: "unicodedata \<Rightarrow> ustring \<Rightarrow> ustring" where
  "remove_accents ud text =
     (let nfd = normalize_NFD ud text
      in filter (\<lambda>c. combining ud c = 0) nfd)"

subsection \<open>The regular expressions and string methods\<close>

text \<open>
  \<open>\s\<close> in a \<open>str\<close> pattern matches the characters for which \<open>str.isspace\<close> holds.
\<close>

definition is_space :: "nat \<Rightarrow> bool" where
  "is_space c =
     ((0x09 \<le> c \<and> c \<le> 0x0D) \<or> (0x1C \<le> c \<and> c \<le> 0x20) \<or> c = 0x85 \<or> c = 0xA0 \<or>
      c = 0x1680 \<or> (0x2000 \<le> c \<and> c \<le> 0x200A) \<or> c = 0x2028 \<or> c = 0x2029 \<or>
      c = 0x202F \<or> c = 0x205F \<or> c = 0x3000)"

definition is_alnum_ascii :: "nat \<Rightarrow> bool" where
  "is_alnum_ascii c =
     ((0x61 \<le> c \<and> c \<le> 0x7A) \<or> (0x41 \<le> c \<and> c \<le> 0x5A) \<or> (0x30 \<le> c \<and> c \<le> 0x39))"

text \<open>\<open>re.sub(r'P+', r, s)\<close> for a character class \<open>P\<close>: every maximal run of
  characters of the class becomes the one character \<open>r\<close>.\<close>

function sub_runs :: "(nat \<Rightarrow> bool) \<Rightarrow> nat \<Rightarrow> ustring \<Rightarrow> ustring" where
  "sub_runs p r [] = []"
| "sub_runs p r (c # cs) =
     (if p c then r # sub_runs p r (dropWhile p cs) else c # sub_runs p r cs)"
  by pat_completeness auto
termination
  by (relation "measure (\<lambda>(p, r, s). length s)")
     (auto simp: length_dropWhile_le le_imp_less_Suc)

text \<open>\<open>s.strip('-')\<close>.\<close>

definition strip :: "nat \<Rightarrow> ustring \<Rightarrow> ustring" where
  "strip ch s = rev (dropWhile (\<lambda>c. c = ch) (rev (dropWhile (\<lambda>c. c = ch) s)))"

text \<open>
  \<open>str.lower\<close>. Both scripts call it on a string that the preceding \<open>re.sub\<close> has
  reduced to ASCII characters, where it maps A-Z to a-z and nothing else.
\<close>

definition lower_char :: "nat \<Rightarrow> nat" where
  "lower_char c = (if 0x41 \<le> c \<and> c \<le> 0x5A then c + 0x20 else c)"

definition lower :: "ustring \<Rightarrow> ustring" where
  "lower s = map lower_char s"

subsection \<open>os.path.splitext (posixpath)\<close>

text \<open>
  \<open>genericpath._splitext(p, '/', None, '.')\<close>: the extension starts at the last dot
  of the last path component, unless only dots precede it in that component.
  \<open>rfind\<close> is \<open>str.rfind\<close> of a single character: the last index, or -1.
\<close>

fun rfind :: "nat \<Rightarrow> ustring \<Rightarrow> int" where
  "rfind ch [] = -1"
| "rfind ch (x # xs) =
     (let r = rfind ch xs
      in if 0 \<le> r then r + 1 else if x = ch then 0 else -1)"

definition splitext :: "ustring \<Rightarrow> ustring \<times> ustring" where
  "splitext p =
     (let sepIndex = rfind slash p;
          dotIndex = rfind dot p
      in if dotIndex > sepIndex \<and>
            list_ex (\<lambda>c. c \<noteq> dot) (take (nat (dotIndex - (sepIndex + 1))) (drop (nat (sepIndex + 1)) p))
         then (take (nat dotIndex) p, drop (nat dotIndex) p)
         else (p, []))"

subsection \<open>clean_filename\<close>

definition filename_char :: "nat \<Rightarrow> bool" where
  "filename_char c = (is_alnum_ascii c \<or> c = hyphen \<or> c = underscore)"

definition clean_stem :: "unicodedata \<Rightarrow> ustring \<Rightarrow> ustring" where
  "clean_stem ud name0 =
     (let name1 = remove_accents ud name0;
          name2 = sub_runs is_space hyphen name1;
          name3 = filter filename_char name2;
          name4 = sub_runs (\<lambda>c. c = hyphen) hyphen name3;
          name5 = strip hyphen name4
      in lower name5)"

definition clean_filename :: "unicodedata \<Rightarrow> ustring \<Rightarrow> ustring" where
  "clean_filename ud filename =
     (case splitext filename of (name, ext) \<Rightarrow> clean_stem ud name @ ext)"

subsection \<open>clean_url\<close>

text \<open>
  \<open>urllib.parse.unquote\<close> is a parameter as well; it returns a string without a
  percent sign as it is.
\<close>

definition unquote_faithful :: "(ustring \<Rightarrow> ustring) \<Rightarrow> bool" where
  "unquote_faithful unquote = (\<forall>s. percent \<notin> set s \<longrightarrow> unquote s = s)"

definition url_char :: "nat \<Rightarrow> bool" where
  "url_char c = (is_alnum_ascii c \<or> c = hyphen \<or> c = dot \<or> c = underscore \<or> c = slash)"

definition clean_special_characters :: "ustring \<Rightarrow> ustring" where
  "clean_special_characters text0 =
     (let text1 = sub_runs is_space hyphen text0;
          text2 = filter url_char text1;
          text3 = sub_runs (\<lambda>c. c = hyphen) hyphen text2;
          text4 = strip hyphen text3
      in text4)"

definition clean_url :: "unicodedata \<Rightarrow> (ustring \<Rightarrow> ustring) \<Rightarrow> ustring \<Rightarrow> ustring" where
  "clean_url ud unquote url0 =
     (let url1 = unquote url0;
          url2 = remove_accents ud url1;
          url3 = clean_special_characters url2
      in lower url3)"

text \<open>An \<open>unquote\<close> for the concrete runs: the escapes \<open>%XX\<close> of the ASCII characters
  are decoded, every other percent sign stays.\<close>

definition hex_digit :: "nat \<Rightarrow> nat option" where
  "hex_digit c =
     (if 0x30 \<le> c \<and> c \<le> 0x39 then Some (c - 0x30)
      else if 0x41 \<le> c \<and> c \<le> 0x46 then Some (c - 0x37)
      else if 0x61 \<le> c \<and> c \<le> 0x66 then Some (c - 0x57)
      else None)"

fun unquote_ascii :: "ustring \<Rightarrow> ustring" where
  "unquote_ascii (p # a # b # cs) =
     (if p = percent
      then (case (hex_digit a, hex_digit b) of
              (Some x, Some y) \<Rightarrow>
                if 16 * x + y < 128 then (16 * x + y) # unquote_ascii cs
                else p # unquote_ascii (a # b # cs)
            | _ \<Rightarrow> p # unquote_ascii (a # b # cs))
      else p # unquote_ascii (a # b # cs))"
| "unquote_ascii (c # cs) = c # unquote_ascii cs"
| "unquote_ascii [] = []"

subsection \<open>The form of a cleaned name\<close>

text \<open>The stem of a cleaned file name: characters of \<open>[a-z0-9-_]\<close>, no hyphen at
  either end, no two hyphens in a row.\<close>

definition stem_char :: "nat \<Rightarrow> bool" where
  "stem_char c =
     ((0x61 \<le> c \<and> c \<le> 0x7A) \<or> (0x30 \<le> c \<and> c \<le> 0x39) \<or> c = hyphen \<or> c = underscore)"

definition hyphens_tidy :: "ustring \<Rightarrow> bool" where
  "hyphens_tidy s =
     (\<not> prefix [hyphen] s \<and> \<not> suffix [hyphen] s \<and> \<not> sublist [hyphen, hyphen] s)"

definition clean_stem_form :: "ustring \<Rightarrow> bool" where
  "clean_stem_form s = (list_all stem_char s \<and> hyphens_tidy s)"

text \<open>The four steps the two cleaning functions share, for a class \<open>keep\<close> of
  characters that are kept.\<close>

definition squeeze :: "(nat \<Rightarrow> bool) \<Rightarrow> ustring \<Rightarrow> ustring" where
  "squeeze keep s =
     strip hyphen (sub_runs (\<lambda>c. c = hyphen) hyphen (filter keep (sub_runs is_space hyphen s)))"

definition url_out_char :: "nat \<Rightarrow> bool" where
  "url_out_char c = (stem_char c \<or> c = dot \<or> c = slash)"

text \<open>The split as the specification words it: at the last dot of the string.\<close>

definition split_last_dot :: "ustring \<Rightarrow> ustring \<times> ustring" where
  "split_last_dot p =
     (let i = rfind dot p
      in if 0 \<le> i then (take (nat i) p, drop (nat i) p) else (p, []))"

section \<open>The rename planner\<close>

text \<open>
  Every path the script builds is \<open>folder_path / name\<close> for a name without a
  separator, so a path is represented by that name. The folder maps the names it
  holds to what they are; \<open>backup_files\<close> is the content of the backup sub-folder.
\<close>

datatype node = File | Dir

record filesystem =
  entries :: "ustring \<rightharpoonup> node"
  backup_files :: "ustring set"

definition path_exists :: "filesystem \<Rightarrow> ustring \<Rightarrow> bool" where
  "path_exists fs p = (entries fs p \<noteq> None)"

record rename_info =
  old_name :: ustring
  new_name :: ustring
  old_path :: ustring
  new_path :: ustring
  referenced :: bool

text \<open>\<open>self.rename_map\<close>: a dict in insertion order, keyed by \<open>str(old_path)\<close>.
  \<open>AList.update\<close> is the dict's item assignment.\<close>

type_synonym rename_map = "(ustring \<times> rename_info) list"

text \<open>\<open>scan_html_files\<close>, on the names of the folder in the order \<open>glob\<close> yields them.\<close>

definition scan_html_files :: "ustring list \<Rightarrow> ustring list" where
  "scan_html_files listing =
     filter (\<lambda>n. suffix (ustr ''.html'') n \<and> n \<noteq> ustr ''index.html'') listing"

definition add_referenced ::
  "unicodedata \<Rightarrow> filesystem \<Rightarrow> rename_map \<Rightarrow> ustring \<Rightarrow> rename_map" where
  "add_referenced ud fs rmap referenced_file =
     (let original_path = referenced_file
      in if path_exists fs original_path
         then (let cleaned_name = clean_filename ud referenced_file;
                   new_path = cleaned_name
               in if referenced_file \<noteq> cleaned_name
                  then AList.update original_path
                         \<lparr>old_name = referenced_file, new_name = cleaned_name,
                          old_path = original_path, new_path = new_path,
                          referenced = True\<rparr> rmap
                  else rmap)
         else rmap)"

definition add_physical :: "unicodedata \<Rightarrow> rename_map \<Rightarrow> ustring \<Rightarrow> rename_map" where
  "add_physical ud rmap file_path =
     (let current_name = file_path;
          cleaned_name = clean_filename ud current_name
      in if current_name \<noteq> cleaned_name \<and> map_of rmap file_path = None
         then AList.update file_path
                \<lparr>old_name = current_name, new_name = cleaned_name,
                 old_path = file_path, new_path = cleaned_name,
                 referenced = False\<rparr> rmap
         else rmap)"

text \<open>\<open>create_rename_map\<close>; \<open>all_referenced\<close> is the set of referenced names in the
  order the loop iterates it, \<open>html_files\<close> the result of the scan.\<close>

definition create_rename_map ::
  "unicodedata \<Rightarrow> filesystem \<Rightarrow> ustring list \<Rightarrow> ustring list \<Rightarrow> rename_map" where
  "create_rename_map ud fs all_referenced html_files =
     foldl (add_physical ud) (foldl (add_referenced ud fs) [] all_referenced) html_files"

subsection \<open>check_conflicts\<close>

record conflict =
  conflict_new_name :: ustring
  conflicting_files :: "ustring list"

fun check_loop ::
  "(ustring \<times> ustring) list \<Rightarrow> conflict list \<Rightarrow> rename_map \<Rightarrow> conflict list" where
  "check_loop new_names conflicts [] = conflicts"
| "check_loop new_names conflicts ((k, info) # rest) =
     (case map_of new_names (new_name info) of
        Some first \<Rightarrow>
          check_loop new_names
            (conflicts @ [\<lparr>conflict_new_name = new_name info,
                           conflicting_files = [first, old_name info]\<rparr>]) rest
      | None \<Rightarrow>
          check_loop (AList.update (new_name info) (old_name info) new_names) conflicts rest)"

definition check_conflicts :: "rename_map \<Rightarrow> conflict list" where
  "check_conflicts rmap = check_loop [] [] rmap"

subsection \<open>resolve_conflicts\<close>

text \<open>The decimal digits of \<open>i\<close> in \<open>f"{name}-{i}{ext}"\<close>.\<close>

function decimal :: "nat \<Rightarrow> ustring" where
  "decimal n = (if n < 10 then [0x30 + n] else decimal (n div 10) @ [0x30 + n mod 10])"
  by pat_completeness auto
termination
  by (relation "measure id") auto

declare decimal.simps [simp del]

text \<open>The inner loop: the first entry with that old name gets the resolved name.\<close>

fun resolve_first :: "ustring \<Rightarrow> ustring \<Rightarrow> rename_map \<Rightarrow> rename_map" where
  "resolve_first old_filename resolved_name [] = []"
| "resolve_first old_filename resolved_name ((k, info) # rest) =
     (if old_name info = old_filename
      then (k, info\<lparr>new_name := resolved_name, new_path := resolved_name\<rparr>) # rest
      else (k, info) # resolve_first old_filename resolved_name rest)"

text \<open>\<open>for i, old_filename in enumerate(files, i0)\<close>.\<close>

fun resolve_files ::
  "ustring \<Rightarrow> ustring \<Rightarrow> nat \<Rightarrow> ustring list \<Rightarrow> rename_map \<Rightarrow> rename_map" where
  "resolve_files name ext i [] rmap = rmap"
| "resolve_files name ext i (old_filename # files) rmap =
     resolve_files name ext (i + 1) files
       (resolve_first old_filename (name @ [hyphen] @ decimal i @ ext) rmap)"

definition resolve_conflict :: "rename_map \<Rightarrow> conflict \<Rightarrow> rename_map" where
  "resolve_conflict rmap c =
     (case splitext (conflict_new_name c) of
        (name, ext) \<Rightarrow> resolve_files name ext 2 (drop 1 (conflicting_files c)) rmap)"

definition resolve_conflicts :: "conflict list \<Rightarrow> rename_map \<Rightarrow> rename_map" where
  "resolve_conflicts conflicts rmap = foldl resolve_conflict rmap conflicts"

text \<open>The planning phase of \<open>run\<close>: the map, then the conflicts and their resolution.\<close>

definition plan :: "unicodedata \<Rightarrow> filesystem \<Rightarrow> ustring list \<Rightarrow> ustring list \<Rightarrow> rename_map" where
  "plan ud fs all_referenced listing =
     (let rmap = create_rename_map ud fs all_referenced (scan_html_files listing);
          conflicts = check_conflicts rmap
      in if conflicts \<noteq> [] then resolve_conflicts conflicts rmap else rmap)"

section \<open>The applier\<close>

subsection \<open>The file operations\<close>

datatype os_error = FileExistsError | FileNotFoundError | IsADirectoryError | NotADirectoryError

datatype error_msg =
  SourceNotFound ustring
| DestinationExists ustring
| RenameError ustring os_error
| IndexUpdateError
| SitemapUpdateError

definition backup_folder :: ustring where
  "backup_folder = ustr ''backup_arquivos_originais''"

text \<open>\<open>backup_folder.mkdir(exist_ok=True)\<close>: a directory of that name is accepted, a
  file of that name raises.\<close>

definition mkdir_backup :: "filesystem \<Rightarrow> os_error + filesystem" where
  "mkdir_backup fs =
     (case entries fs backup_folder of
        None \<Rightarrow> Inr (fs\<lparr>entries := (entries fs)(backup_folder \<mapsto> Dir), backup_files := {}\<rparr>)
      | Some Dir \<Rightarrow> Inr fs
      | Some File \<Rightarrow> Inl FileExistsError)"

text \<open>\<open>shutil.copy2(old_file, backup_folder / old_file.name)\<close>.\<close>

definition copy2_backup :: "filesystem \<Rightarrow> ustring \<Rightarrow> os_error + filesystem" where
  "copy2_backup fs old_file =
     (case entries fs old_file of
        None \<Rightarrow> Inl FileNotFoundError
      | Some Dir \<Rightarrow> Inl IsADirectoryError
      | Some File \<Rightarrow>
          if entries fs backup_folder = Some Dir
          then Inr (fs\<lparr>backup_files := insert old_file (backup_files fs)\<rparr>)
          else Inl FileNotFoundError)"

text \<open>\<open>old_file.rename(new_file)\<close>, that is \<open>os.rename\<close>. The script calls it with a
  free target or with the source itself; a directory is never moved onto a directory
  there, and that case is given as an error.\<close>

definition os_rename :: "filesystem \<Rightarrow> ustring \<Rightarrow> ustring \<Rightarrow> os_error + filesystem" where
  "os_rename fs old_file new_file =
     (case entries fs old_file of
        None \<Rightarrow> Inl FileNotFoundError
      | Some n \<Rightarrow>
          if new_file = old_file then Inr fs
          else (case entries fs new_file of
                  None \<Rightarrow> Inr (fs\<lparr>entries := (entries fs)(old_file := None, new_file \<mapsto> n)\<rparr>)
                | Some File \<Rightarrow>
                    if n = File
                    then Inr (fs\<lparr>entries := (entries fs)(old_file := None, new_file \<mapsto> n)\<rparr>)
                    else Inl NotADirectoryError
                | Some Dir \<Rightarrow> Inl IsADirectoryError))"

subsection \<open>perform_renames\<close>

record renamed =
  r_old :: ustring
  r_new :: ustring
  r_referenced :: bool

definition success_of :: "rename_info \<Rightarrow> renamed" where
  "success_of info =
     \<lparr>r_old = old_name info, r_new = new_name info, r_referenced = referenced info\<rparr>"

text \<open>The body of the loop, on the folder, \<open>self.errors\<close> and \<open>successful_renames\<close>.\<close>

definition rename_entry ::
  "bool \<Rightarrow> rename_info \<Rightarrow> filesystem \<times> error_msg list \<times> renamed list \<Rightarrow>
   filesystem \<times> error_msg list \<times> renamed list" where
  "rename_entry backup info st =
     (case st of (fs, errs, successful_renames) \<Rightarrow>
        let old_file = old_path info; new_file = new_path info
        in if \<not> path_exists fs old_file
           then (fs, errs @ [SourceNotFound old_file], successful_renames)
           else if path_exists fs new_file \<and> new_file \<noteq> old_file
           then (fs, errs @ [DestinationExists new_file], successful_renames)
           else (case (if backup then copy2_backup fs old_file else Inr fs) of
                   Inl e \<Rightarrow> (fs, errs @ [RenameError (old_name info) e], successful_renames)
                 | Inr fs1 \<Rightarrow>
                     (case os_rename fs1 old_file new_file of
                        Inl e \<Rightarrow> (fs1, errs @ [RenameError (old_name info) e], successful_renames)
                      | Inr fs2 \<Rightarrow> (fs2, errs, successful_renames @ [success_of info]))))"

definition run_entries ::
  "bool \<Rightarrow> rename_map \<Rightarrow> filesystem \<times> error_msg list \<times> renamed list \<Rightarrow>
   filesystem \<times> error_msg list \<times> renamed list" where
  "run_entries backup rmap st = foldl (\<lambda>st (k, info). rename_entry backup info st) st rmap"

text \<open>\<open>perform_renames\<close> returns \<open>None\<close> for an empty map; the exception of \<open>mkdir\<close> is
  not caught and leaves the function before anything is changed.\<close>

definition perform_renames ::
  "bool \<Rightarrow> rename_map \<Rightarrow> filesystem \<Rightarrow> error_msg list \<Rightarrow>
   os_error + (renamed list option \<times> filesystem \<times> error_msg list)" where
  "perform_renames backup rmap fs errs =
     (if rmap = [] then Inr (None, fs, errs)
      else (case (if backup then mkdir_backup fs else Inr fs) of
              Inl e \<Rightarrow> Inl e
            | Inr fs1 \<Rightarrow>
                (case run_entries backup rmap (fs1, errs, []) of
                   (fs2, errs2, successful_renames) \<Rightarrow>
                     Inr (Some successful_renames, fs2, errs2))))"

text \<open>For a map and a folder: the entries whose source is missing, those whose source is
  there, and three conditions under which every rename of a present source succeeds:
  all old and new paths are different from one another, no new path is taken, and no
  source is a directory.\<close>

definition missing_in :: "filesystem \<Rightarrow> rename_map \<Rightarrow> rename_map" where
  "missing_in fs rmap = filter (\<lambda>e. entries fs (old_path (snd e)) = None) rmap"

definition present_in :: "filesystem \<Rightarrow> rename_map \<Rightarrow> rename_map" where
  "present_in fs rmap = filter (\<lambda>e. entries fs (old_path (snd e)) \<noteq> None) rmap"

definition separate_paths :: "rename_map \<Rightarrow> bool" where
  "separate_paths rmap =
     distinct (map (\<lambda>e. old_path (snd e)) rmap @ map (\<lambda>e. new_path (snd e)) rmap)"

definition targets_free :: "filesystem \<Rightarrow> rename_map \<Rightarrow> bool" where
  "targets_free fs rmap = list_all (\<lambda>e. entries fs (new_path (snd e)) = None) rmap"

definition sources_no_dir :: "filesystem \<Rightarrow> rename_map \<Rightarrow> bool" where
  "sources_no_dir fs rmap = list_all (\<lambda>e. entries fs (old_path (snd e)) \<noteq> Some Dir) rmap"

subsection \<open>update_references\<close>

text \<open>\<open>str.replace(old, new)\<close>: every occurrence, from the left, without overlap; an
  empty \<open>old\<close> matches before every character and at the end.\<close>

function replace_from :: "ustring \<Rightarrow> ustring \<Rightarrow> ustring \<Rightarrow> ustring" where
  "replace_from old new [] = []"
| "replace_from old new (c # cs) =
     (if prefix old (c # cs) then new @ replace_from old new (drop (length old - 1) cs)
      else c # replace_from old new cs)"
  by pat_completeness auto
termination
  by (relation "measure (\<lambda>(old, new, s). length s)") auto

definition str_replace :: "ustring \<Rightarrow> ustring \<Rightarrow> ustring \<Rightarrow> ustring" where
  "str_replace old new s =
     (if old = [] then new @ concat (map (\<lambda>c. c # new) s) else replace_from old new s)"

definition href_dq :: "ustring \<Rightarrow> ustring" where
  "href_dq name = ustr ''href='' @ [34] @ name @ [34]"

definition href_sq :: "ustring \<Rightarrow> ustring" where
  "href_sq name = ustr ''href='' @ [39] @ name @ [39]"

definition update_index :: "renamed list \<Rightarrow> ustring \<Rightarrow> ustring" where
  "update_index successful_renames content0 =
     foldl (\<lambda>content rename.
              str_replace (href_sq (r_old rename)) (href_sq (r_new rename))
                (str_replace (href_dq (r_old rename)) (href_dq (r_new rename)) content))
       content0 successful_renames"

text \<open>
  The sitemap tree is read through the texts of its \<open>loc\<close> elements only: those the
  query \<open>.//ns:loc\<close> finds and those \<open>.//loc\<close> finds, in document order. A text is
  \<open>None\<close> for an empty element.
\<close>

record sitemap =
  ns_locs :: "ustring option list"
  plain_locs :: "ustring option list"

text \<open>The loop over the renames for one element, with the flag \<open>updated\<close>.\<close>

definition update_text :: "renamed list \<Rightarrow> ustring \<times> bool \<Rightarrow> ustring \<times> bool" where
  "update_text successful_renames st =
     foldl (\<lambda>(text, updated) rename.
              if sublist (r_old rename) text
              then (str_replace (r_old rename) (r_new rename) text, True)
              else (text, updated))
       st successful_renames"

fun update_locs ::
  "renamed list \<Rightarrow> ustring option list \<Rightarrow> bool \<Rightarrow> ustring option list \<times> bool" where
  "update_locs successful_renames [] updated = ([], updated)"
| "update_locs successful_renames (None # urls) updated =
     (case update_locs successful_renames urls updated of
        (urls', updated') \<Rightarrow> (None # urls', updated'))"
| "update_locs successful_renames (Some text # urls) updated =
     (if text \<noteq> []
      then (case update_text successful_renames (text, updated) of
              (text', updated1) \<Rightarrow>
                (case update_locs successful_renames urls updated1 of
                   (urls', updated2) \<Rightarrow> (Some text' # urls', updated2)))
      else (case update_locs successful_renames urls updated of
              (urls', updated') \<Rightarrow> (Some text # urls', updated')))"

definition update_sitemap :: "renamed list \<Rightarrow> sitemap \<Rightarrow> sitemap \<times> bool" where
  "update_sitemap successful_renames sm =
     (case update_locs successful_renames (ns_locs sm) False of
        (ns', updated1) \<Rightarrow>
          (case (if \<not> updated1 then update_locs successful_renames (plain_locs sm) updated1
                 else (plain_locs sm, updated1)) of
             (plain', updated2) \<Rightarrow> (\<lparr>ns_locs = ns', plain_locs = plain'\<rparr>, updated2)))"

text \<open>
  What a run works on: the folder, the two documents (absent, present but failing to
  be read or parsed, or present with a content), \<open>self.errors\<close>, and the names of the
  documents written so far.
\<close>

datatype 'a doc = Absent | Unreadable | Content 'a

record world =
  folder :: filesystem
  index_doc :: "ustring doc"
  sitemap_doc :: "sitemap doc"
  errors :: "error_msg list"
  written :: "ustring list"

definition update_references :: "renamed list \<Rightarrow> world \<Rightarrow> world" where
  "update_references successful_renames w =
     (let w1 =
        (case index_doc w of
           Absent \<Rightarrow> w
         | Unreadable \<Rightarrow> w\<lparr>errors := errors w @ [IndexUpdateError]\<rparr>
         | Content content \<Rightarrow>
             w\<lparr>index_doc := Content (update_index successful_renames content),
               written := written w @ [ustr ''index.html'']\<rparr>)
      in (case sitemap_doc w1 of
            Absent \<Rightarrow> w1
          | Unreadable \<Rightarrow> w1\<lparr>errors := errors w1 @ [SitemapUpdateError]\<rparr>
          | Content sm \<Rightarrow>
              (case update_sitemap successful_renames sm of
                 (sm', updated) \<Rightarrow>
                   if updated
                   then w1\<lparr>sitemap_doc := Content sm',
                           written := written w1 @ [ustr ''sitemap.xml'']\<rparr>
                   else w1)))"

text \<open>The renames applied to one text, one after the other; and whether the old name
  of some rename occurs in the text of some element of a list (an element without a
  text is passed over).\<close>

definition apply_renames :: "renamed list \<Rightarrow> ustring \<Rightarrow> ustring" where
  "apply_renames successful_renames text0 =
     foldl (\<lambda>text rename. str_replace (r_old rename) (r_new rename) text) text0 successful_renames"

definition old_name_occurs :: "renamed list \<Rightarrow> ustring option list \<Rightarrow> bool" where
  "old_name_occurs successful_renames locs =
     list_ex (\<lambda>loc. case loc of None \<Rightarrow> False
                | Some text \<Rightarrow> text \<noteq> [] \<and> list_ex (\<lambda>rename. sublist (r_old rename) text) successful_renames)
       locs"

subsection \<open>run\<close>

text \<open>The three questions of \<open>run\<close>; an answer is whether the reply, in lower case,
  is one of s, sim, y, yes.\<close>

record answers =
  proceed :: bool
  create_backup :: bool
  update_refs :: bool

definition run ::
  "unicodedata \<Rightarrow> ustring list \<Rightarrow> ustring list \<Rightarrow> answers \<Rightarrow> world \<Rightarrow> os_error + world" where
  "run ud all_referenced listing ans w =
     (let rmap = plan ud (folder w) all_referenced listing
      in if rmap = [] then Inr w
         else if \<not> proceed ans then Inr w
         else (case perform_renames (create_backup ans) rmap (folder w) (errors w) of
                 Inl e \<Rightarrow> Inl e
               | Inr (result, fs', errs') \<Rightarrow>
                   (let w1 = w\<lparr>folder := fs', errors := errs'\<rparr>
                    in case result of
                         None \<Rightarrow> Inr w1
                       | Some successful_renames \<Rightarrow>
                           if successful_renames \<noteq> [] \<and> update_refs ans
                           then Inr (update_references successful_renames w1)
                           else Inr w1)))"

section \<open>Concrete names, folders and documents\<close>

text \<open>The inputs on which the functions are run in the sections below.\<close>

definition three_colliding :: "ustring list" where
  "three_colliding = [ustr ''A.html'', ustr ''a!.html'', ustr ''a!!.html'']"

definition folder_three :: filesystem where
  "folder_three =
     \<lparr>entries = [ustr ''A.html'' \<mapsto> File, ustr ''a!.html'' \<mapsto> File,
                 ustr ''a!!.html'' \<mapsto> File],
      backup_files = {}\<rparr>"

definition entry :: "ustring \<Rightarrow> ustring \<Rightarrow> ustring \<times> rename_info" where
  "entry old new =
     (old, \<lparr>old_name = old, new_name = new, old_path = old, new_path = new, referenced = True\<rparr>)"

definition plan_abc :: rename_map where
  "plan_abc =
     [entry (ustr ''A.html'') (ustr ''a.html''), entry (ustr ''B.html'') (ustr ''b.html''),
      entry (ustr ''C.html'') (ustr ''c.html'')]"

definition folder_ac :: filesystem where
  "folder_ac =
     \<lparr>entries = [ustr ''A.html'' \<mapsto> File, ustr ''C.html'' \<mapsto> File], backup_files = {}\<rparr>"

definition plan_b :: rename_map where
  "plan_b = [entry (ustr ''B.html'') (ustr ''b.html'')]"

definition folder_empty :: filesystem where
  "folder_empty = \<lparr>entries = Map.empty, backup_files = {}\<rparr>"

definition folder_blocked :: filesystem where
  "folder_blocked = \<lparr>entries = [backup_folder \<mapsto> File], backup_files = {}\<rparr>"

definition world_clean :: world where
  "world_clean =
     \<lparr>folder = \<lparr>entries = [ustr ''pagina.html'' \<mapsto> File, ustr ''contato.html'' \<mapsto> File],
                 backup_files = {}\<rparr>,
      index_doc = Content (href_dq (ustr ''pagina.html'')),
      sitemap_doc = Absent, errors = [], written = []\<rparr>"

definition listing_clean :: "ustring list" where
  "listing_clean =
     [ustr ''pagina.html'', ustr ''index.html'', ustr ''contato.html'', ustr ''style.css'']"

definition pagina_acc :: ustring where
  "pagina_acc = ustr ''P'' @ [0xE1] @ ustr ''gina.html''"

definition r_pagina :: renamed where
  "r_pagina = \<lparr>r_old = pagina_acc, r_new = ustr ''pagina.html'', r_referenced = True\<rparr>"

definition url_old :: ustring where
  "url_old = ustr ''http://x.org/'' @ pagina_acc"

definition url_new :: ustring where
  "url_new = ustr ''http://x.org/pagina.html''"

definition url_other :: ustring where
  "url_other = ustr ''http://x.org/contato.html''"

definition index_text :: "ustring \<Rightarrow> ustring" where
  "index_text name =
     ustr ''<a '' @ href_dq name @ ustr ''>1</a><a '' @ href_dq name @ ustr ''>2</a>''"

definition world_refs :: "sitemap \<Rightarrow> world" where
  "world_refs sm =
     \<lparr>folder = \<lparr>entries = [ustr ''pagina.html'' \<mapsto> File], backup_files = {}\<rparr>,
      index_doc = Content (index_text pagina_acc),
      sitemap_doc = Content sm, errors = [], written = []\<rparr>"

definition sitemap_ns :: sitemap where
  "sitemap_ns = \<lparr>ns_locs = [Some url_old, Some url_other], plain_locs = []\<rparr>"

definition sitemap_other :: sitemap where
  "sitemap_other = \<lparr>ns_locs = [Some url_other], plain_locs = [None]\<rparr>"

definition sitemap_mixed :: sitemap where
  "sitemap_mixed = \<lparr>ns_locs = [Some url_old], plain_locs = [Some url_old]\<rparr>"

definition relatorio_acc :: ustring where
  "relatorio_acc = ustr ''Relat'' @ 0xF3 # ustr ''rio.html''"

definition relatorio_cap :: ustring where
  "relatorio_cap = ustr ''Relatorio.html''"

definition relatorio :: ustring where
  "relatorio = ustr ''relatorio.html''"

definition folder_rel :: filesystem where
  "folder_rel = \<lparr>entries = [relatorio_acc \<mapsto> File, relatorio \<mapsto> File], backup_files = {}\<rparr>"

definition folder_rel_cap :: filesystem where
  "folder_rel_cap =
     \<lparr>entries = [relatorio_acc \<mapsto> File, relatorio_cap \<mapsto> File], backup_files = {}\<rparr>"

section \<open>Properties of the string functions\<close>

lemma sub_runs_not_prefix:
  "\<not> prefix [h] s \<Longrightarrow> \<not> prefix [h] (sub_runs (\<lambda>c. c = h) h s)"
  by (cases s) auto

lemma dropWhile_not_prefix: "\<not> prefix [h] (dropWhile (\<lambda>c. c = h) s)"
  by (induction s) auto

lemma sub_runs_no_double_aux:
  "p = (\<lambda>c. c = h) \<Longrightarrow> r = h \<Longrightarrow> \<not> sublist [h, h] (sub_runs p r s)"
proof (induction p r s rule: sub_runs.induct)
  case (1 p r)
  then show ?case by simp
next
  case (2 p r c cs)
  show ?case
  proof (cases "c = h")
    case True
    have "\<not> prefix [h] (sub_runs (\<lambda>c. c = h) h (dropWhile (\<lambda>c. c = h) cs))"
      by (rule sub_runs_not_prefix) (rule dropWhile_not_prefix)
    with True 2 show ?thesis
      by (auto simp: sublist_Cons_right)
  next
    case False
    with 2 show ?thesis by (auto simp: sublist_Cons_right)
  qed
qed

lemma sub_runs_no_double: "\<not> sublist [h, h] (sub_runs (\<lambda>c. c = h) h s)"
  by (rule sub_runs_no_double_aux) simp_all

lemma sub_runs_id_no_double:
  "\<not> sublist [h, h] s \<Longrightarrow> sub_runs (\<lambda>c. c = h) h s = s"
proof (induction s)
  case Nil
  then show ?case by simp
next
  case (Cons c cs)
  then have nd: "\<not> sublist [h, h] cs" and np: "\<not> prefix [h, h] (c # cs)"
    by (auto simp: sublist_Cons_right)
  show ?case
  proof (cases "c = h")
    case True
    with np have "dropWhile (\<lambda>c. c = h) cs = cs" by (cases cs) auto
    with True Cons.IH nd show ?thesis by simp
  next
    case False
    with Cons.IH nd show ?thesis by simp
  qed
qed

lemma sub_runs_id_none: "\<forall>c\<in>set s. \<not> p c \<Longrightarrow> sub_runs p r s = s"
  by (induction s) auto

lemma sub_runs_set: "set (sub_runs p r s) \<subseteq> insert r (set s)"
proof (induction p r s rule: sub_runs.induct)
  case (1 p r)
  then show ?case by simp
next
  case (2 p r c cs)
  have "set (dropWhile p cs) \<subseteq> set cs" by (simp add: set_dropWhileD subsetI)
  with 2 show ?case by auto
qed

lemma strip_set: "set (strip h s) \<subseteq> set s"
  unfolding strip_def by (auto dest!: set_dropWhileD)

lemma strip_not_prefix: "\<not> prefix [h] (strip h s)"
proof -
  let ?d = "dropWhile (\<lambda>c. c = h) s"
  have a: "\<not> prefix [h] ?d" by (rule dropWhile_not_prefix)
  have "prefix (strip h s) ?d"
    unfolding strip_def using suffix_dropWhile[of "\<lambda>c. c = h" "rev ?d"]
    by (simp add: suffix_to_prefix)
  with a show ?thesis
    by (metis prefix_order.trans)
qed

lemma strip_not_suffix: "\<not> suffix [h] (strip h s)"
  unfolding strip_def using dropWhile_not_prefix[of h "rev (dropWhile (\<lambda>c. c = h) s)"]
  by (simp add: suffix_to_prefix)

lemma strip_sublist: "sublist (strip h s) s"
proof -
  let ?d = "dropWhile (\<lambda>c. c = h) s"
  have "sublist (strip h s) ?d"
    unfolding strip_def using suffix_dropWhile[of "\<lambda>c. c = h" "rev ?d"]
    by (metis sublist_rev_left suffix_imp_sublist)
  moreover have "sublist ?d s" by (simp add: suffix_dropWhile)
  ultimately show ?thesis by (rule sublist_order.order.trans)
qed

lemma strip_id: "\<not> prefix [h] s \<Longrightarrow> \<not> suffix [h] s \<Longrightarrow> strip h s = s"
proof -
  assume a: "\<not> prefix [h] s" and b: "\<not> suffix [h] s"
  from a have 1: "dropWhile (\<lambda>c. c = h) s = s" by (cases s) auto
  from b have "\<not> prefix [h] (rev s)" by (simp add: suffix_to_prefix)
  then have 2: "dropWhile (\<lambda>c. c = h) (rev s) = rev s" by (cases "rev s") auto
  show ?thesis unfolding strip_def by (simp add: 1 2)
qed


lemma lower_char_hyphen: "lower_char c = hyphen \<longleftrightarrow> c = hyphen"
  unfolding lower_char_def by presburger

lemma lower_not_prefix: "\<not> prefix [hyphen] s \<Longrightarrow> \<not> prefix [hyphen] (lower s)"
  by (cases s) (simp_all add: lower_def lower_char_hyphen)

lemma lower_not_suffix: "\<not> suffix [hyphen] s \<Longrightarrow> \<not> suffix [hyphen] (lower s)"
  using lower_not_prefix[of "rev s"]
  by (simp add: suffix_to_prefix lower_def rev_map)

lemma sublist_pair_map:
  assumes "\<And>c. f c = h \<longleftrightarrow> c = h" and "sublist [h, h] (map f s)"
  shows "sublist [h, h] s"
  using assms(2)
proof (induction s)
  case Nil
  then show ?case by simp
next
  case (Cons a s)
  show ?case
  proof (cases "prefix [h, h] (map f (a # s))")
    case True
    then obtain b s' where "s = b # s'" "f a = h" "f b = h"
      by (cases s) auto
    with assms(1) show ?thesis by (simp add: sublist_Cons_right)
  next
    case False
    with Cons.prems have "sublist [h, h] (map f s)" by (auto simp: sublist_Cons_right)
    with Cons.IH show ?thesis by (simp add: sublist_Cons_right)
  qed
qed

lemma lower_no_double:
  "\<not> sublist [hyphen, hyphen] s \<Longrightarrow> \<not> sublist [hyphen, hyphen] (lower s)"
  unfolding lower_def using sublist_pair_map[of lower_char hyphen s] lower_char_hyphen
  by blast

lemma lower_stem_char: "filename_char c \<Longrightarrow> stem_char (lower_char c)"
  unfolding filename_char_def stem_char_def is_alnum_ascii_def lower_char_def
  by presburger

lemma lower_url_char: "url_char c \<Longrightarrow> url_out_char (lower_char c)"
  unfolding url_char_def url_out_char_def stem_char_def is_alnum_ascii_def lower_char_def
  by presburger

lemma lower_tidy: "hyphens_tidy s \<Longrightarrow> hyphens_tidy (lower s)"
  by (simp add: hyphens_tidy_def lower_not_prefix lower_not_suffix lower_no_double)

lemma squeeze_keeps:
  assumes "keep hyphen" and "c \<in> set (squeeze keep s)"
  shows "keep c"
proof -
  define n3 where "n3 = filter keep (sub_runs is_space hyphen s)"
  define n4 where "n4 = sub_runs (\<lambda>c. c = hyphen) hyphen n3"
  have "set (squeeze keep s) \<subseteq> set n4"
    unfolding squeeze_def n4_def n3_def by (rule strip_set)
  moreover have "set n4 \<subseteq> insert hyphen (set n3)" unfolding n4_def by (rule sub_runs_set)
  ultimately have "c = hyphen \<or> c \<in> set n3" using assms(2) by blast
  with assms(1) show ?thesis by (auto simp: n3_def)
qed

lemma squeeze_tidy: "hyphens_tidy (squeeze keep s)"
proof -
  define n4 where "n4 = sub_runs (\<lambda>c. c = hyphen) hyphen (filter keep (sub_runs is_space hyphen s))"
  have sq: "squeeze keep s = strip hyphen n4" by (simp add: squeeze_def n4_def)
  have "\<not> sublist [hyphen, hyphen] n4" unfolding n4_def by (rule sub_runs_no_double)
  moreover have "sublist (strip hyphen n4) n4" by (rule strip_sublist)
  ultimately have "\<not> sublist [hyphen, hyphen] (strip hyphen n4)"
    using sublist_order.order.trans by blast
  then show ?thesis
    unfolding sq hyphens_tidy_def by (simp add: strip_not_prefix strip_not_suffix)
qed

lemma squeeze_id:
  assumes "\<forall>c\<in>set s. keep c \<and> \<not> is_space c" and "hyphens_tidy s"
  shows "squeeze keep s = s"
proof -
  from assms(1) have 1: "sub_runs is_space hyphen s = s"
    by (intro sub_runs_id_none) simp
  from assms(1) have 2: "filter keep s = s" by simp
  from assms(2) have 3: "sub_runs (\<lambda>c. c = hyphen) hyphen s = s"
    by (simp add: hyphens_tidy_def sub_runs_id_no_double)
  from assms(2) have 4: "strip hyphen s = s"
    by (simp add: hyphens_tidy_def strip_id)
  show ?thesis by (simp add: squeeze_def 1 2 3 4)
qed

lemma clean_stem_squeeze:
  "clean_stem ud name = lower (squeeze filename_char (remove_accents ud name))"
  by (simp add: clean_stem_def squeeze_def)

lemma clean_url_squeeze:
  "clean_url ud unquote url = lower (squeeze url_char (remove_accents ud (unquote url)))"
  by (simp add: clean_url_def clean_special_characters_def squeeze_def)

lemma clean_stem_form_clean_stem: "clean_stem_form (clean_stem ud name)"
proof -
  have "filename_char hyphen" by (simp add: filename_char_def)
  then have "\<forall>c\<in>set (squeeze filename_char (remove_accents ud name)). filename_char c"
    using squeeze_keeps by blast
  then have "list_all stem_char (clean_stem ud name)"
    by (simp add: clean_stem_squeeze lower_def list_all_iff lower_stem_char)
  moreover have "hyphens_tidy (clean_stem ud name)"
    unfolding clean_stem_squeeze by (rule lower_tidy) (rule squeeze_tidy)
  ultimately show ?thesis by (simp add: clean_stem_form_def)
qed

lemma stem_char_facts:
  assumes "stem_char c"
  shows "is_ascii c" "\<not> is_space c" "filename_char c" "lower_char c = c" "c \<noteq> dot" "c \<noteq> slash"
  using assms
  unfolding stem_char_def is_ascii_def is_space_def filename_char_def is_alnum_ascii_def
    lower_char_def
  by presburger+

lemma url_out_char_facts:
  assumes "url_out_char c"
  shows "is_ascii c" "\<not> is_space c" "url_char c" "lower_char c = c" "c \<noteq> percent"
  using assms
  unfolding url_out_char_def stem_char_def is_ascii_def is_space_def url_char_def
    is_alnum_ascii_def lower_char_def
  by presburger+

lemma remove_accents_ascii:
  assumes "ascii_faithful ud" "list_all is_ascii s"
  shows "remove_accents ud s = s"
proof -
  from assms have "normalize_NFD ud s = s" by (simp add: ascii_faithful_def)
  moreover from assms have "\<forall>c\<in>set s. combining ud c = 0"
    by (simp add: ascii_faithful_def list_all_iff)
  ultimately show ?thesis by (simp add: remove_accents_def)
qed

lemma clean_stem_fixed:
  assumes "ascii_faithful ud" "clean_stem_form s"
  shows "clean_stem ud s = s"
proof -
  from assms(2) have chars: "\<forall>c\<in>set s. stem_char c" and tidy: "hyphens_tidy s"
    by (simp_all add: clean_stem_form_def list_all_iff)
  from chars have "list_all is_ascii s" by (simp add: list_all_iff stem_char_facts)
  with assms(1) have 1: "remove_accents ud s = s" by (rule remove_accents_ascii)
  from chars tidy have 2: "squeeze filename_char s = s"
    by (intro squeeze_id) (simp_all add: stem_char_facts)
  from chars have 3: "lower s = s" by (simp add: lower_def map_idI stem_char_facts)
  show ?thesis by (simp add: clean_stem_squeeze 1 2 3)
qed

lemma clean_url_form:
  "list_all url_out_char (clean_url ud unquote url) \<and> hyphens_tidy (clean_url ud unquote url)"
proof -
  have "url_char hyphen" by (simp add: url_char_def)
  then have "\<forall>c\<in>set (squeeze url_char (remove_accents ud (unquote url))). url_char c"
    using squeeze_keeps by blast
  then have "list_all url_out_char (clean_url ud unquote url)"
    by (simp add: clean_url_squeeze lower_def list_all_iff lower_url_char)
  moreover have "hyphens_tidy (clean_url ud unquote url)"
    unfolding clean_url_squeeze by (rule lower_tidy) (rule squeeze_tidy)
  ultimately show ?thesis by simp
qed

lemma clean_url_fixed:
  assumes "ascii_faithful ud" "unquote_faithful unquote"
    and "list_all url_out_char s" "hyphens_tidy s"
  shows "clean_url ud unquote s = s"
proof -
  from assms(3) have chars: "\<forall>c\<in>set s. url_out_char c" by (simp add: list_all_iff)
  then have "percent \<notin> set s" using url_out_char_facts(5) by blast
  with assms(2) have 0: "unquote s = s" by (simp add: unquote_faithful_def)
  from chars have "list_all is_ascii s" by (simp add: list_all_iff url_out_char_facts)
  with assms(1) have 1: "remove_accents ud s = s" by (rule remove_accents_ascii)
  from chars assms(4) have 2: "squeeze url_char s = s"
    by (intro squeeze_id) (simp_all add: url_out_char_facts)
  from chars have 3: "lower s = s" by (simp add: lower_def map_idI url_out_char_facts)
  show ?thesis by (simp add: clean_url_squeeze 0 1 2 3)
qed

lemma rfind_ge: "- 1 \<le> rfind ch s"
  by (induction s) (auto simp: Let_def)

lemma rfind_absent: "ch \<notin> set s \<Longrightarrow> rfind ch s = - 1"
  by (induction s) (auto simp: Let_def)

lemma rfind_last: "ch \<notin> set b \<Longrightarrow> rfind ch (a @ ch # b) = int (length a)"
  by (induction a) (auto simp: Let_def rfind_absent)

lemma rfind_lower_bound: "int (length a) \<le> rfind ch (a @ ch # b)"
proof (cases "ch \<in> set b")
  case False
  then show ?thesis by (simp add: rfind_last)
next
  case True
  then obtain b1 b2 where b: "b = b1 @ ch # b2" "ch \<notin> set b2"
    by (meson split_list_last)
  then have "rfind ch ((a @ ch # b1) @ ch # b2) = int (length (a @ ch # b1))"
    by (intro rfind_last)
  with b show ?thesis by simp
qed

lemma splitext_no_dot: "dot \<notin> set p \<Longrightarrow> splitext p = (p, [])"
  using rfind_ge[of slash p] by (simp add: splitext_def rfind_absent)

lemma splitext_append: "fst (splitext p) @ snd (splitext p) = p"
  by (simp add: splitext_def Let_def)

lemma splitext_leading_dot:
  assumes "dot \<notin> set t"
  shows "splitext (dot # t) = (dot # t, [])"
proof -
  from assms have d: "rfind dot (dot # t) = 0"
    using rfind_last[of dot t "[]"] by simp
  have "- 1 \<le> rfind slash (dot # t)" by (rule rfind_ge)
  then have "rfind slash (dot # t) = - 1 \<or> 0 \<le> rfind slash (dot # t)" by arith
  then show ?thesis
  proof
    assume "rfind slash (dot # t) = - 1"
    with d show ?thesis unfolding splitext_def Let_def by simp
  next
    assume "0 \<le> rfind slash (dot # t)"
    with d show ?thesis unfolding splitext_def Let_def by simp
  qed
qed

lemma splitext_join:
  assumes "st \<noteq> []" "dot \<notin> set st" "slash \<notin> set st" "dot \<notin> set e" "slash \<notin> set e"
  shows "splitext (st @ dot # e) = (st, dot # e)"
proof -
  from assms have d: "rfind dot (st @ dot # e) = int (length st)" by (simp add: rfind_last)
  from assms have s: "rfind slash (st @ dot # e) = - 1" by (simp add: rfind_absent)
  from assms(1,2) have "list_ex (\<lambda>c. c \<noteq> dot) st"
    by (cases st) (auto simp: list_ex_iff)
  with d s show ?thesis unfolding splitext_def Let_def by simp
qed

lemma splitext_ext:
  assumes "splitext p = (n, e)" "e \<noteq> []"
  shows "\<exists>e'. e = dot # e' \<and> dot \<notin> set e' \<and> slash \<notin> set e'"
proof -
  have dp: "dot \<in> set p"
  proof (rule ccontr)
    assume "dot \<notin> set p"
    then have "splitext p = (p, [])" by (rule splitext_no_dot)
    with assms show False by simp
  qed
  then obtain a b where p: "p = a @ dot # b" "dot \<notin> set b"
    by (meson split_list_last)
  then have d: "rfind dot p = int (length a)" by (simp add: rfind_last)
  from assms have gt: "rfind dot p > rfind slash p"
    unfolding splitext_def Let_def by (auto split: if_splits)
  with assms d have e: "e = drop (length a) p"
    unfolding splitext_def Let_def by (auto split: if_splits)
  with p have e': "e = dot # b" by simp
  have "slash \<notin> set b"
  proof
    assume "slash \<in> set b"
    then obtain b1 b2 where "b = b1 @ slash # b2" by (meson split_list)
    with p have "p = (a @ dot # b1) @ slash # b2" by simp
    then have "int (length (a @ dot # b1)) \<le> rfind slash p"
      using rfind_lower_bound[of "a @ dot # b1" slash b2] by simp
    with gt d show False by simp
  qed
  with e' p show ?thesis by simp
qed

section \<open>Evaluating the normalizer on concrete names\<close>

lemmas stem_eval = clean_stem_def ustr_def remove_accents_def
  ucd_latin1_def decompose_latin1_def latin1_table_def combining_latin1_def
  is_space_def filename_char_def is_alnum_ascii_def strip_def lower_def lower_char_def

lemma decimal_2: "decimal 2 = [50]"
  by (simp add: decimal.simps)

lemma splitext_a_html: "splitext (ustr ''a.html'') = (ustr ''a'', ustr ''.html'')"
  by (simp add: splitext_def ustr_def)

section \<open>Properties of the normalizer\<close>

lemma decompose_latin1_ascii: "is_ascii c \<Longrightarrow> decompose_latin1 c = [c]"
  by (simp add: decompose_latin1_def is_ascii_def latin1_table_def)

lemma ascii_faithful_latin1: "ascii_faithful ucd_latin1"
proof -
  have "concat (map decompose_latin1 s) = s" if "list_all is_ascii s" for s
    using that by (induction s) (simp_all add: decompose_latin1_ascii)
  moreover have "combining_latin1 c = 0" if "is_ascii c" for c
    using that by (simp add: combining_latin1_def is_ascii_def)
  ultimately show ?thesis by (simp add: ascii_faithful_def ucd_latin1_def)
qed

lemma unquote_ascii_no_percent: "percent \<notin> set s \<Longrightarrow> unquote_ascii s = s"
  by (induction s rule: unquote_ascii.induct) simp_all

lemma unquote_faithful_ascii: "unquote_faithful unquote_ascii"
  by (simp add: unquote_faithful_def unquote_ascii_no_percent)

lemma clean_filename_split:
  "clean_filename ud f = clean_stem ud (fst (splitext f)) @ snd (splitext f)"
  by (simp add: clean_filename_def split_beta)

lemma clean_filename_idem:
  assumes "ascii_faithful ud"
    and "clean_stem ud (fst (splitext f)) \<noteq> [] \<or> snd (splitext f) = []"
  shows "clean_filename ud (clean_filename ud f) = clean_filename ud f"
proof -
  define st where "st = clean_stem ud (fst (splitext f))"
  define e where "e = snd (splitext f)"
  have cf: "clean_filename ud f = st @ e" by (simp add: clean_filename_split st_def e_def)
  have form: "clean_stem_form st" unfolding st_def by (rule clean_stem_form_clean_stem)
  then have chars: "\<forall>c\<in>set st. stem_char c" by (simp add: clean_stem_form_def list_all_iff)
  then have nd: "dot \<notin> set st" and ns: "slash \<notin> set st"
    using stem_char_facts(5,6) by blast+
  from assms(1) form have fx: "clean_stem ud st = st" by (rule clean_stem_fixed)
  show ?thesis
  proof (cases "e = []")
    case True
    with nd have "splitext (st @ e) = (st, [])" by (simp add: splitext_no_dot)
    then have "clean_filename ud (st @ e) = clean_stem ud st" by (simp add: clean_filename_split)
    with True fx show ?thesis unfolding cf by simp
  next
    case False
    with assms(2) have ne: "st \<noteq> []" by (simp add: st_def e_def)
    from False obtain e' where e': "e = dot # e'" "dot \<notin> set e'" "slash \<notin> set e'"
      using splitext_ext[of f "fst (splitext f)" e] by (auto simp: e_def)
    with ne nd ns have "splitext (st @ e) = (st, e)" by (simp add: splitext_join)
    then have "clean_filename ud (st @ e) = clean_stem ud st @ e"
      by (simp add: clean_filename_split)
    with fx show ?thesis unfolding cf by simp
  qed
qed

lemma clean_url_idem:
  assumes "ascii_faithful ud" "unquote_faithful unquote"
  shows "clean_url ud unquote (clean_url ud unquote url) = clean_url ud unquote url"
  using assms clean_url_form[of ud unquote url] by (simp add: clean_url_fixed)

lemma splitext_bang_html: "splitext (ustr ''!.html'') = (ustr ''!'', ustr ''.html'')"
  by (simp add: splitext_def ustr_def)

lemma splitext_dot_html: "splitext (ustr ''.html'') = (ustr ''.html'', [])"
  by (simp add: splitext_def ustr_def)

lemma clean_stem_bang: "clean_stem ucd_latin1 (ustr ''!'') = []"
  by (simp add: stem_eval)

lemma clean_stem_dot_html_latin1: "clean_stem ucd_latin1 (ustr ''.html'') = ustr ''html''"
  by (simp add: stem_eval)

lemma clean_filename_bang_html: "clean_filename ucd_latin1 (ustr ''!.html'') = ustr ''.html''"
  by (simp add: clean_filename_def splitext_bang_html clean_stem_bang)

lemma clean_filename_dot_html_latin1: "clean_filename ucd_latin1 (ustr ''.html'') = ustr ''html''"
  by (simp add: clean_filename_def splitext_dot_html clean_stem_dot_html_latin1)

lemma ustr_dot_html_neq: "ustr ''html'' \<noteq> ustr ''.html''"
  by (simp add: ustr_def)

theorem clean_filename_not_idempotent:
  "\<not> (\<forall>s. clean_filename ucd_latin1 (clean_filename ucd_latin1 s) = clean_filename ucd_latin1 s)"
proof
  assume "\<forall>s. clean_filename ucd_latin1 (clean_filename ucd_latin1 s) = clean_filename ucd_latin1 s"
  then have "clean_filename ucd_latin1 (clean_filename ucd_latin1 (ustr ''!.html'')) =
    clean_filename ucd_latin1 (ustr ''!.html'')" by blast
  then show False
    by (simp add: clean_filename_bang_html clean_filename_dot_html_latin1 ustr_dot_html_neq)
qed

text \<open>
  C2. Cleaning twice is the same as cleaning once. For \<open>clean_url\<close> this holds for
  every string. For \<open>clean_filename\<close> it holds for every name whose cleaned stem is
  not empty or whose extension is empty; a name such as !.html, whose stem cleans to
  nothing, becomes .html, which \<open>os.path.splitext\<close> reads as a stem, so the second
  pass gives html. The two facts of the standard library used are that ASCII text is
  its own decomposition and that \<open>unquote\<close> leaves text without a percent sign alone.
\<close>

theorem clean_idempotent:
  assumes "ascii_faithful ud" and "unquote_faithful unquote"
  shows "clean_url ud unquote (clean_url ud unquote url) = clean_url ud unquote url \<and>
    (clean_stem ud (fst (splitext f)) \<noteq> [] \<or> snd (splitext f) = [] \<longrightarrow>
       clean_filename ud (clean_filename ud f) = clean_filename ud f)"
  using assms by (simp add: clean_url_idem clean_filename_idem)


lemma splitext_last_dot:
  assumes "slash \<notin> set a" "slash \<notin> set e" "dot \<notin> set e" "list_ex (\<lambda>c. c \<noteq> dot) a"
  shows "splitext (a @ dot # e) = (a, dot # e)"
proof -
  from assms have d: "rfind dot (a @ dot # e) = int (length a)" by (simp add: rfind_last)
  from assms have s: "rfind slash (a @ dot # e) = - 1" by (simp add: rfind_absent)
  from d s assms(4) show ?thesis unfolding splitext_def Let_def by simp
qed

lemma splitext_only_dots:
  assumes "list_all (\<lambda>c. c = dot) a" "dot \<notin> set e"
  shows "splitext (a @ dot # e) = (a @ dot # e, [])"
proof -
  let ?p = "a @ dot # e"
  from assms have d: "rfind dot ?p = int (length a)" by (simp add: rfind_last)
  from assms(1) have nx: "\<not> list_ex (\<lambda>c. c \<noteq> dot) a" by (simp add: list_all_iff list_ex_iff)
  have "- 1 \<le> rfind slash ?p" by (rule rfind_ge)
  then have "rfind slash ?p = - 1 \<or> 0 \<le> rfind slash ?p" by arith
  then show ?thesis
  proof
    assume "rfind slash ?p = - 1"
    with d nx show ?thesis unfolding splitext_def Let_def by simp
  next
    assume ge: "0 \<le> rfind slash ?p"
    define m where "m = nat (rfind slash ?p + 1)"
    define k where "k = nat (int (length a) - (rfind slash ?p + 1))"
    have "take k (drop m ?p) = drop m a"
    proof (cases "m \<le> length a")
      case True
      with ge have "k = length a - m" by (simp add: k_def m_def)
      with True show ?thesis by simp
    next
      case False
      with ge have "k = 0" by (simp add: k_def m_def)
      with False show ?thesis by simp
    qed
    then have "set (take k (drop m ?p)) \<subseteq> set a" by (simp add: set_drop_subset)
    with assms(1) have "\<not> list_ex (\<lambda>c. c \<noteq> dot) (take k (drop m ?p))"
      by (auto simp: list_all_iff list_ex_iff)
    then have "\<not> list_ex (\<lambda>c. c \<noteq> dot)
      (take (nat (int (length a) - (rfind slash ?p + 1))) (drop (nat (rfind slash ?p + 1)) ?p))"
      by (simp add: k_def m_def)
    with d show ?thesis unfolding splitext_def Let_def by simp
  qed
qed

lemma clean_stem_dot_html:
  assumes "ascii_faithful ud"
  shows "clean_stem ud (ustr ''.html'') = ustr ''html''"
proof -
  have "list_all is_ascii (ustr ''.html'')" by (simp add: ustr_def is_ascii_def)
  with assms have "remove_accents ud (ustr ''.html'') = ustr ''.html''"
    by (rule remove_accents_ascii)
  then show ?thesis
    by (simp add: clean_stem_def)
       (simp add: ustr_def is_space_def filename_char_def is_alnum_ascii_def strip_def lower_def
          lower_char_def)
qed

text \<open>
  C9. A name whose only dot is its first character has an empty extension: the whole
  name is the stem and the dot is removed, so \<open>clean_filename(".html")\<close> is
  \<open>"html"\<close>. Hence a name that cleans to an empty stem followed by the extension
  .html is mapped to .html, which is not a fixed point: cleaning it again gives html.
\<close>

theorem leading_dot_is_stem:
  assumes "ascii_faithful ud"
  shows "(dot \<notin> set t \<longrightarrow>
            splitext (dot # t) = (dot # t, []) \<and>
            clean_filename ud (dot # t) = clean_stem ud (dot # t) \<and>
            dot \<notin> set (clean_filename ud (dot # t))) \<and>
         clean_filename ud (ustr ''.html'') = ustr ''html'' \<and>
         (splitext s = (name, ustr ''.html'') \<and> clean_stem ud name = [] \<longrightarrow>
            clean_filename ud s = ustr ''.html'' \<and>
            clean_filename ud (clean_filename ud s) = ustr ''html'' \<and>
            clean_filename ud (clean_filename ud s) \<noteq> clean_filename ud s)"
proof -
  have sp: "splitext (ustr ''.html'') = (ustr ''.html'', [])"
    by (simp add: splitext_def ustr_def)
  with assms have html: "clean_filename ud (ustr ''.html'') = ustr ''html''"
    by (simp add: clean_filename_def clean_stem_dot_html)
  have a: "splitext (dot # t) = (dot # t, []) \<and>
      clean_filename ud (dot # t) = clean_stem ud (dot # t) \<and>
      dot \<notin> set (clean_filename ud (dot # t))" if "dot \<notin> set t"
  proof -
    from that have 1: "splitext (dot # t) = (dot # t, [])" by (rule splitext_leading_dot)
    then have 2: "clean_filename ud (dot # t) = clean_stem ud (dot # t)"
      by (simp add: clean_filename_def)
    have "clean_stem_form (clean_stem ud (dot # t))" by (rule clean_stem_form_clean_stem)
    then have "\<forall>c\<in>set (clean_stem ud (dot # t)). stem_char c"
      by (simp add: clean_stem_form_def list_all_iff)
    then have "dot \<notin> set (clean_stem ud (dot # t))" using stem_char_facts(5) by blast
    with 1 2 show ?thesis by simp
  qed
  have b: "clean_filename ud s = ustr ''.html'' \<and>
      clean_filename ud (clean_filename ud s) = ustr ''html'' \<and>
      clean_filename ud (clean_filename ud s) \<noteq> clean_filename ud s"
    if "splitext s = (name, ustr ''.html'')" "clean_stem ud name = []"
  proof -
    from that have "clean_filename ud s = ustr ''.html''" by (simp add: clean_filename_def)
    with html show ?thesis by (simp add: ustr_def)
  qed
  from a b html show ?thesis by blast
qed

theorem leading_dot_is_stem_witness:
  "ascii_faithful ucd_latin1 \<and> dot \<notin> set (ustr ''html'') \<and>
   splitext (dot # ustr ''html'') = (dot # ustr ''html'', []) \<and>
   dot \<notin> set (clean_filename ucd_latin1 (dot # ustr ''html'')) \<and>
   splitext (ustr ''!.html'') = (ustr ''!'', ustr ''.html'') \<and>
   clean_stem ucd_latin1 (ustr ''!'') = [] \<and>
   clean_filename ucd_latin1 (ustr ''!.html'') = ustr ''.html'' \<and>
   clean_filename ucd_latin1 (clean_filename ucd_latin1 (ustr ''!.html'')) = ustr ''html''"
proof -
  note th = leading_dot_is_stem [OF ascii_faithful_latin1, of "ustr ''html''" "ustr ''!.html''"
      "ustr ''!''"]
  have d: "dot \<notin> set (ustr ''html'')" by (simp add: ustr_def)
  from th d have a: "splitext (dot # ustr ''html'') = (dot # ustr ''html'', []) \<and>
    dot \<notin> set (clean_filename ucd_latin1 (dot # ustr ''html''))" by blast
  from th splitext_bang_html clean_stem_bang
  have b: "clean_filename ucd_latin1 (ustr ''!.html'') = ustr ''.html'' \<and>
    clean_filename ucd_latin1 (clean_filename ucd_latin1 (ustr ''!.html'')) = ustr ''html''"
    by blast
  from a b d splitext_bang_html clean_stem_bang ascii_faithful_latin1 show ?thesis by blast
qed

theorem clean_idempotent_witness:
  "ascii_faithful ucd_latin1 \<and> unquote_faithful unquote_ascii \<and>
   clean_url ucd_latin1 unquote_ascii (clean_url ucd_latin1 unquote_ascii (ustr ''a/My%20Page.html'')) =
     clean_url ucd_latin1 unquote_ascii (ustr ''a/My%20Page.html'') \<and>
   clean_stem ucd_latin1 (fst (splitext (ustr ''A.html''))) \<noteq> [] \<and>
   clean_filename ucd_latin1 (clean_filename ucd_latin1 (ustr ''A.html'')) =
     clean_filename ucd_latin1 (ustr ''A.html'')"
proof -
  have sp: "splitext (ustr ''A.html'') = (ustr ''A'', ustr ''.html'')"
    by (simp add: splitext_def ustr_def)
  have st: "clean_stem ucd_latin1 (ustr ''A'') = ustr ''a''" by (simp add: stem_eval)
  have ne: "clean_stem ucd_latin1 (fst (splitext (ustr ''A.html''))) \<noteq> []"
    by (simp add: sp st) (simp add: ustr_def)
  show ?thesis
    using clean_idempotent [OF ascii_faithful_latin1 unquote_faithful_ascii,
        of "ustr ''a/My%20Page.html''" "ustr ''A.html''"]
      ne ascii_faithful_latin1 unquote_faithful_ascii
    by simp
qed

text \<open>
  C3. The output of \<open>clean_filename\<close> is the cleaned stem followed by the extension
  as it was, stem and extension being those of \<open>os.path.splitext\<close>; the cleaned
  stem has only characters of \<open>[a-z0-9-_]\<close>, no hyphen at either end and no two
  hyphens in a row. The extension is empty or starts at the last dot and holds no
  other dot and no slash; in a name without a slash it starts at the last dot when
  some character other than a dot precedes that dot, and it is empty when only dots
  precede it.
\<close>

theorem clean_filename_form:
  "clean_filename ud f = clean_stem ud (fst (splitext f)) @ snd (splitext f) \<and>
   fst (splitext f) @ snd (splitext f) = f \<and>
   clean_stem_form (clean_stem ud (fst (splitext f))) \<and>
   (snd (splitext f) = [] \<or>
    (\<exists>e. snd (splitext f) = dot # e \<and> dot \<notin> set e \<and> slash \<notin> set e)) \<and>
   (slash \<notin> set a \<and> slash \<notin> set e \<and> dot \<notin> set e \<and> list_ex (\<lambda>c. c \<noteq> dot) a \<longrightarrow>
      splitext (a @ dot # e) = (a, dot # e)) \<and>
   (list_all (\<lambda>c. c = dot) a \<and> dot \<notin> set e \<longrightarrow>
      splitext (a @ dot # e) = (a @ dot # e, []))"
proof -
  have "snd (splitext f) = [] \<or>
    (\<exists>e. snd (splitext f) = dot # e \<and> dot \<notin> set e \<and> slash \<notin> set e)"
    using splitext_ext[of f "fst (splitext f)" "snd (splitext f)"] by auto
  then show ?thesis
    by (simp add: clean_filename_split splitext_append clean_stem_form_clean_stem
        splitext_last_dot splitext_only_dots)
qed

theorem clean_filename_last_dot_counterexample:
  "\<not> (\<exists>stem. clean_filename ucd_latin1 (ustr ''.html'') =
          stem @ snd (split_last_dot (ustr ''.html'')) \<and> clean_stem_form stem)"
proof -
  have "snd (split_last_dot (ustr ''.html'')) = ustr ''.html''"
    by (simp add: split_last_dot_def ustr_def)
  moreover have "ustr ''html'' \<noteq> stem @ ustr ''.html''" for stem
  proof
    assume "ustr ''html'' = stem @ ustr ''.html''"
    then have "length (ustr ''html'') = length (stem @ ustr ''.html'')" by simp
    then show False by (simp add: ustr_def)
  qed
  ultimately show ?thesis by (simp add: clean_filename_dot_html_latin1)
qed

theorem clean_filename_form_witness:
  "slash \<notin> set (ustr ''a.b'') \<and> slash \<notin> set (ustr ''html'') \<and> dot \<notin> set (ustr ''html'') \<and>
   list_ex (\<lambda>c. c \<noteq> dot) (ustr ''a.b'') \<and>
   splitext (ustr ''a.b'' @ dot # ustr ''html'') = (ustr ''a.b'', dot # ustr ''html'') \<and>
   list_all (\<lambda>c. c = dot) [dot] \<and>
   splitext ([dot] @ dot # ustr ''html'') = ([dot] @ dot # ustr ''html'', []) \<and>
   clean_stem_form (clean_stem ucd_latin1 (fst (splitext (ustr ''My  File!!.html''))))"
proof -
  have h: "slash \<notin> set (ustr ''a.b'')" "slash \<notin> set (ustr ''html'')" "dot \<notin> set (ustr ''html'')"
    "list_ex (\<lambda>c. c \<noteq> dot) (ustr ''a.b'')"
    by (simp_all add: ustr_def)
  show ?thesis
    using clean_filename_form [of ucd_latin1 "ustr ''My  File!!.html''" "ustr ''a.b''" "ustr ''html''"]
      clean_filename_form [of ucd_latin1 "ustr ''My  File!!.html''" "[dot]" "ustr ''html''"] h
    by simp
qed

section \<open>Conflict resolution\<close>

subsection \<open>Three names that collide\<close>

lemma splitext_three:
  "splitext (ustr ''A.html'') = (ustr ''A'', ustr ''.html'')"
  "splitext (ustr ''a!.html'') = (ustr ''a!'', ustr ''.html'')"
  "splitext (ustr ''a!!.html'') = (ustr ''a!!'', ustr ''.html'')"
  by (simp_all add: splitext_def ustr_def)

lemma clean_stem_three:
  "clean_stem ucd_latin1 (ustr ''A'') = ustr ''a''"
  "clean_stem ucd_latin1 (ustr ''a!'') = ustr ''a''"
  "clean_stem ucd_latin1 (ustr ''a!!'') = ustr ''a''"
  by (simp_all add: stem_eval)

lemma clean_filename_three:
  "clean_filename ucd_latin1 (ustr ''A.html'') = ustr ''a.html''"
  "clean_filename ucd_latin1 (ustr ''a!.html'') = ustr ''a.html''"
  "clean_filename ucd_latin1 (ustr ''a!!.html'') = ustr ''a.html''"
  by (simp_all add: clean_filename_def splitext_three clean_stem_three) (simp_all add: ustr_def)

lemmas clean_filename_three_raw = clean_filename_three [unfolded ustr_def, simplified]
lemmas splitext_a_html_raw = splitext_a_html [unfolded ustr_def, simplified]

text \<open>
  C1. After \<open>check_conflicts\<close> and \<open>resolve_conflicts\<close> the new names of a plan are
  meant to be pairwise distinct, the colliding files being numbered -2, -3, ... in the
  order met. \<open>check_conflicts\<close> reports every later file in a pair with the first one,
  so \<open>resolve_conflicts\<close> numbers each of them 2: for the three files A.html, a!.html
  and a!!.html, which all clean to a.html, the second and the third both become
  a-2.html, and the new names of the resolved plan are not distinct.
\<close>

theorem three_way_collision_not_resolved:
  "map (\<lambda>(k, info). (old_name info, new_name info))
     (plan ucd_latin1 folder_three [] three_colliding) =
     [(ustr ''A.html'', ustr ''a.html''),
      (ustr ''a!.html'', ustr ''a-2.html''),
      (ustr ''a!!.html'', ustr ''a-2.html'')] \<and>
   \<not> distinct (map (\<lambda>(k, info). new_name info)
     (plan ucd_latin1 folder_three [] three_colliding))"
  by (simp add: plan_def three_colliding_def scan_html_files_def suffix_to_prefix
      create_rename_map_def add_physical_def check_conflicts_def resolve_conflicts_def
      resolve_conflict_def clean_filename_three_raw splitext_a_html_raw decimal_2 ustr_def
      Let_def)

subsection \<open>A name that collides with a clean name\<close>

lemmas rel_names = relatorio_acc_def relatorio_cap_def relatorio_def ustr_def

lemma splitext_rel:
  "splitext relatorio_acc = (ustr ''Relat'' @ 0xF3 # ustr ''rio'', ustr ''.html'')"
  "splitext relatorio_cap = (ustr ''Relatorio'', ustr ''.html'')"
  "splitext relatorio = (ustr ''relatorio'', ustr ''.html'')"
  by (simp_all add: splitext_def rel_names)

lemma remove_accents_rel:
  "remove_accents ucd_latin1 (ustr ''Relat'' @ 0xF3 # ustr ''rio'') = ustr ''Relatorio''"
  "remove_accents ucd_latin1 (ustr ''Relatorio'') = ustr ''Relatorio''"
  "remove_accents ucd_latin1 (ustr ''relatorio'') = ustr ''relatorio''"
  by (simp_all add: remove_accents_def ucd_latin1_def decompose_latin1_def latin1_table_def
      combining_latin1_def ustr_def)

lemma clean_stem_rel:
  "clean_stem ucd_latin1 (ustr ''Relat'' @ 0xF3 # ustr ''rio'') = ustr ''relatorio''"
  "clean_stem ucd_latin1 (ustr ''Relatorio'') = ustr ''relatorio''"
  "clean_stem ucd_latin1 (ustr ''relatorio'') = ustr ''relatorio''"
  by (simp_all add: clean_stem_def remove_accents_rel)
     (simp_all add: ustr_def is_space_def filename_char_def is_alnum_ascii_def strip_def
        lower_def lower_char_def)

lemma clean_filename_rel:
  "clean_filename ucd_latin1 relatorio_acc = relatorio"
  "clean_filename ucd_latin1 relatorio_cap = relatorio"
  "clean_filename ucd_latin1 relatorio = relatorio"
  by (simp_all add: clean_filename_def splitext_rel clean_stem_rel) (simp_all add: rel_names)

lemmas clean_filename_rel_raw = clean_filename_rel [unfolded rel_names, simplified]
lemmas splitext_rel_raw = splitext_rel [unfolded rel_names, simplified]

lemmas plan_eval = plan_def scan_html_files_def suffix_to_prefix create_rename_map_def
  add_referenced_def add_physical_def check_conflicts_def resolve_conflicts_def
  resolve_conflict_def path_exists_def decimal_2 Let_def

lemma plan_rel:
  "plan ucd_latin1 folder_rel [relatorio_acc, relatorio] [relatorio_acc, relatorio] =
     [(relatorio_acc, \<lparr>old_name = relatorio_acc, new_name = relatorio, old_path = relatorio_acc,
         new_path = relatorio, referenced = True\<rparr>)]"
  by (simp add: plan_eval folder_rel_def clean_filename_rel_raw splitext_rel_raw rel_names)

lemma conflicts_rel:
  "check_conflicts (create_rename_map ucd_latin1 folder_rel [relatorio_acc, relatorio]
     (scan_html_files [relatorio_acc, relatorio])) = []"
  by (simp add: plan_eval folder_rel_def clean_filename_rel_raw splitext_rel_raw rel_names)

lemma plan_rel_cap:
  "map (\<lambda>e. (old_name (snd e), new_name (snd e), referenced (snd e)))
     (plan ucd_latin1 folder_rel_cap [relatorio_acc, relatorio_cap] [relatorio_acc, relatorio_cap]) =
     [(relatorio_acc, relatorio, True), (relatorio_cap, ustr ''relatorio-2.html'', True)]"
  by (simp add: plan_eval folder_rel_cap_def clean_filename_rel_raw splitext_rel_raw rel_names)

lemma perform_rel:
  "perform_renames False
     (plan ucd_latin1 folder_rel [relatorio_acc, relatorio] [relatorio_acc, relatorio])
     folder_rel [] = Inr (Some [], folder_rel, [DestinationExists relatorio])"
  unfolding plan_rel
  apply (simp add: perform_renames_def run_entries_def rename_entry_def path_exists_def Let_def)
  apply (simp add: folder_rel_def rel_names)
  done

theorem clean_name_gets_no_entry_counterexample:
  "\<not> (\<exists>e\<in>set (plan ucd_latin1 folder_rel [relatorio_acc, relatorio] [relatorio_acc, relatorio]).
        new_name (snd e) = ustr ''relatorio-2.html'')"
  unfolding plan_rel by (simp add: rel_names)

text \<open>
  C4. With the accented name (Relatorio.html written with U+00F3 for its first o) and
  relatorio.html both referenced and both in the folder, the plan has one entry: the
  accented name is mapped to relatorio.html; relatorio.html is its own cleaned form and gets no entry,
  so no conflict is found and no name relatorio-2.html is given, and the rename is
  refused at apply time because the target exists. When both colliding names differ
  from their cleaned form, as the accented name and Relatorio.html do, the first is
  mapped to relatorio.html and the second to relatorio-2.html.
\<close>

theorem collision_with_clean_name:
  "map (\<lambda>e. (old_name (snd e), new_name (snd e), referenced (snd e)))
     (plan ucd_latin1 folder_rel [relatorio_acc, relatorio] [relatorio_acc, relatorio]) =
     [(relatorio_acc, relatorio, True)] \<and>
   check_conflicts (create_rename_map ucd_latin1 folder_rel [relatorio_acc, relatorio]
     (scan_html_files [relatorio_acc, relatorio])) = [] \<and>
   perform_renames False
     (plan ucd_latin1 folder_rel [relatorio_acc, relatorio] [relatorio_acc, relatorio])
     folder_rel [] = Inr (Some [], folder_rel, [DestinationExists relatorio]) \<and>
   map (\<lambda>e. (old_name (snd e), new_name (snd e), referenced (snd e)))
     (plan ucd_latin1 folder_rel_cap [relatorio_acc, relatorio_cap] [relatorio_acc, relatorio_cap]) =
     [(relatorio_acc, relatorio, True), (relatorio_cap, ustr ''relatorio-2.html'', True)]"
proof -
  have "map (\<lambda>e. (old_name (snd e), new_name (snd e), referenced (snd e)))
     (plan ucd_latin1 folder_rel [relatorio_acc, relatorio] [relatorio_acc, relatorio]) =
     [(relatorio_acc, relatorio, True)]"
    unfolding plan_rel by simp
  with conflicts_rel perform_rel plan_rel_cap show ?thesis by blast
qed

section \<open>Properties of the applier\<close>

lemma add_referenced_clean:
  "clean_filename ud n = n \<Longrightarrow> add_referenced ud fs rmap n = rmap"
  by (simp add: add_referenced_def Let_def)

lemma add_physical_clean:
  "clean_filename ud n = n \<Longrightarrow> add_physical ud rmap n = rmap"
  by (simp add: add_physical_def Let_def)

lemma foldl_add_referenced_clean:
  "\<forall>n\<in>set refs. clean_filename ud n = n \<Longrightarrow> foldl (add_referenced ud fs) rmap refs = rmap"
  by (induction refs arbitrary: rmap) (simp_all add: add_referenced_clean)

lemma foldl_add_physical_clean:
  "\<forall>n\<in>set names. clean_filename ud n = n \<Longrightarrow> foldl (add_physical ud) rmap names = rmap"
  by (induction names arbitrary: rmap) (simp_all add: add_physical_clean)

text \<open>
  C6. When every referenced name and every physical HTML file name (the result of the
  scan) is its own cleaned form, the rename map is empty, and so is the plan; \<open>run\<close>
  then returns with the folder, the index, the sitemap and the error list as they
  were, and \<open>perform_renames\<close> on the empty map changes nothing either.
\<close>

theorem no_op_run:
  assumes "\<forall>n\<in>set all_referenced. clean_filename ud n = n"
    and "\<forall>n\<in>set (scan_html_files listing). clean_filename ud n = n"
  shows "create_rename_map ud (folder w) all_referenced (scan_html_files listing) = [] \<and>
         plan ud (folder w) all_referenced listing = [] \<and>
         run ud all_referenced listing ans w = Inr w \<and>
         perform_renames backup [] (folder w) (errors w) = Inr (None, folder w, errors w)"
proof -
  from assms have c: "create_rename_map ud (folder w) all_referenced (scan_html_files listing) = []"
    by (simp add: create_rename_map_def foldl_add_referenced_clean foldl_add_physical_clean)
  then have p: "plan ud (folder w) all_referenced listing = []"
    by (simp add: plan_def check_conflicts_def)
  then have "run ud all_referenced listing ans w = Inr w" by (simp add: run_def)
  with c p show ?thesis by (simp add: perform_renames_def)
qed

lemma mkdir_backup_ok:
  assumes "entries fs backup_folder \<noteq> Some File"
  shows "\<exists>fs1. mkdir_backup fs = Inr fs1 \<and> entries fs1 backup_folder = Some Dir \<and>
    (\<forall>p. p \<noteq> backup_folder \<longrightarrow> entries fs1 p = entries fs p)"
proof (cases "entries fs backup_folder")
  case None
  then show ?thesis by (simp add: mkdir_backup_def)
next
  case (Some n)
  with assms have "n = Dir" by (cases n) auto
  with Some show ?thesis by (simp add: mkdir_backup_def)
qed

lemma mkdir_backup_file:
  "entries fs backup_folder = Some File \<Longrightarrow> mkdir_backup fs = Inl FileExistsError"
  by (simp add: mkdir_backup_def)

lemma copy2_backup_entries:
  "copy2_backup fs old = Inr fs1 \<Longrightarrow> entries fs1 = entries fs \<and> entries fs old = Some File"
  by (auto simp: copy2_backup_def split: option.splits node.splits if_splits)

lemma os_rename_keeps_dir:
  assumes "os_rename fs old new = Inr fs'" "entries fs old = Some File" "entries fs b = Some Dir"
  shows "entries fs' b = Some Dir"
  using assms
  by (auto simp: os_rename_def split: option.splits node.splits if_splits)

lemma rename_entry_keeps_backup:
  assumes "rename_entry True info (fs, errs, succ) = (fs', errs', succ')"
    and "entries fs backup_folder = Some Dir"
  shows "entries fs' backup_folder = Some Dir"
proof (cases "copy2_backup fs (old_path info)")
  case (Inl e)
  with assms show ?thesis
    by (auto simp: rename_entry_def Let_def split: if_splits)
next
  case (Inr fs1)
  then have e: "entries fs1 = entries fs" "entries fs (old_path info) = Some File"
    using copy2_backup_entries by blast+
  show ?thesis
  proof (cases "os_rename fs1 (old_path info) (new_path info)")
    case (Inl e')
    with Inr assms e show ?thesis
      by (auto simp: rename_entry_def Let_def split: if_splits)
  next
    case (Inr fs2)
    with e assms(2) have "entries fs2 backup_folder = Some Dir"
      using os_rename_keeps_dir[of fs1 "old_path info" "new_path info" fs2 backup_folder] by simp
    with Inr \<open>copy2_backup fs (old_path info) = Inr fs1\<close> assms show ?thesis
      by (auto simp: rename_entry_def Let_def split: if_splits)
  qed
qed

lemma run_entries_keeps_backup:
  assumes "run_entries True rmap (fs, errs, succ) = (fs', errs', succ')"
    and "entries fs backup_folder = Some Dir"
  shows "entries fs' backup_folder = Some Dir"
  using assms
proof (induction rmap arbitrary: fs errs succ)
  case Nil
  then show ?case by (simp add: run_entries_def)
next
  case (Cons a rmap)
  obtain k info where a: "a = (k, info)" by (cases a)
  obtain fs1 errs1 succ1 where st: "rename_entry True info (fs, errs, succ) = (fs1, errs1, succ1)"
    by (cases "rename_entry True info (fs, errs, succ)")
  from st Cons.prems(2) have "entries fs1 backup_folder = Some Dir"
    by (rule rename_entry_keeps_backup)
  moreover from Cons.prems(1) a st have "run_entries True rmap (fs1, errs1, succ1) = (fs', errs', succ')"
    by (simp add: run_entries_def)
  ultimately show ?case using Cons.IH by blast
qed

text \<open>
  C10. On an empty map \<open>perform_renames\<close> returns at once and changes nothing,
  whatever the backup flag. On a non-empty map with a backup requested, the backup
  folder is created before the first entry is looked at and is a directory of the
  folder when \<open>perform_renames\<close> returns, whatever happens to the entries, provided
  no file of that name is in the way; if there is one, \<open>mkdir\<close> raises
  FileExistsError, which leaves \<open>perform_renames\<close> before any entry is looked at.
\<close>

theorem backup_folder_created:
  "perform_renames backup [] fs errs = Inr (None, fs, errs) \<and>
   (rmap \<noteq> [] \<and> entries fs backup_folder \<noteq> Some File \<longrightarrow>
      (\<exists>succ fs' errs'. perform_renames True rmap fs errs = Inr (Some succ, fs', errs') \<and>
         entries fs' backup_folder = Some Dir)) \<and>
   (rmap \<noteq> [] \<and> entries fs backup_folder = Some File \<longrightarrow>
      perform_renames True rmap fs errs = Inl FileExistsError)"
proof -
  have a: "\<exists>succ fs' errs'. perform_renames True rmap fs errs = Inr (Some succ, fs', errs') \<and>
         entries fs' backup_folder = Some Dir"
    if ne: "rmap \<noteq> []" and nf: "entries fs backup_folder \<noteq> Some File"
  proof -
    from nf obtain fs1 where m: "mkdir_backup fs = Inr fs1" "entries fs1 backup_folder = Some Dir"
      using mkdir_backup_ok by blast
    obtain fs2 errs2 succ2 where r: "run_entries True rmap (fs1, errs, []) = (fs2, errs2, succ2)"
      by (cases "run_entries True rmap (fs1, errs, [])")
    from r m(2) have "entries fs2 backup_folder = Some Dir" by (rule run_entries_keeps_backup)
    with ne m r show ?thesis by (simp add: perform_renames_def)
  qed
  have b: "perform_renames True rmap fs errs = Inl FileExistsError"
    if "rmap \<noteq> []" "entries fs backup_folder = Some File"
    using that by (simp add: perform_renames_def mkdir_backup_file)
  from a b show ?thesis by (simp add: perform_renames_def)
qed

lemma rename_entry_missing:
  "\<not> path_exists fs (old_path info) \<Longrightarrow>
   rename_entry backup info (fs, errs, succ) = (fs, errs @ [SourceNotFound (old_path info)], succ)"
  by (simp add: rename_entry_def Let_def)

lemma rename_entry_occupied:
  "path_exists fs (old_path info) \<Longrightarrow> path_exists fs (new_path info) \<Longrightarrow>
   new_path info \<noteq> old_path info \<Longrightarrow>
   rename_entry backup info (fs, errs, succ) =
     (fs, errs @ [DestinationExists (new_path info)], succ)"
  by (simp add: rename_entry_def Let_def)

lemma run_entries_Nil: "run_entries backup [] st = st"
  by (simp add: run_entries_def)

lemma run_entries_Cons:
  "run_entries backup ((k, info) # rmap) st = run_entries backup rmap (rename_entry backup info st)"
  by (simp add: run_entries_def)

lemma run_entries_append:
  "run_entries backup (pre @ post) st = run_entries backup post (run_entries backup pre st)"
  by (simp add: run_entries_def)

lemma rename_entry_outcome:
  assumes "rename_entry backup info (fs, errs, succ) = (fs', errs', succ')"
  shows "(\<exists>e. errs' = errs @ [e] \<and> succ' = succ) \<or>
         (errs' = errs \<and> succ' = succ @ [success_of info])"
  using assms
  by (auto simp: rename_entry_def Let_def split: if_splits sum.splits)

lemma run_entries_accounts:
  assumes "run_entries backup rmap (fs, errs, succ) = (fs', errs', succ')"
  shows "\<exists>new_errs new_succ. errs' = errs @ new_errs \<and> succ' = succ @ new_succ \<and>
           length new_errs + length new_succ = length rmap \<and>
           subseq new_succ (map (\<lambda>(k, info). success_of info) rmap)"
  using assms
proof (induction rmap arbitrary: fs errs succ)
  case Nil
  then show ?case by (simp add: run_entries_Nil)
next
  case (Cons a rmap)
  obtain k info where a: "a = (k, info)" by (cases a)
  obtain fs1 errs1 succ1 where st: "rename_entry backup info (fs, errs, succ) = (fs1, errs1, succ1)"
    by (cases "rename_entry backup info (fs, errs, succ)")
  with Cons.prems a have "run_entries backup rmap (fs1, errs1, succ1) = (fs', errs', succ')"
    by (simp add: run_entries_Cons)
  then obtain ne ns where ih: "errs' = errs1 @ ne" "succ' = succ1 @ ns"
    "length ne + length ns = length rmap" "subseq ns (map (\<lambda>(k, info). success_of info) rmap)"
    using Cons.IH by blast
  from st have "(\<exists>e. errs1 = errs @ [e] \<and> succ1 = succ) \<or>
         (errs1 = errs \<and> succ1 = succ @ [success_of info])"
    by (rule rename_entry_outcome)
  then show ?case
  proof
    assume "\<exists>e. errs1 = errs @ [e] \<and> succ1 = succ"
    then obtain e where "errs1 = errs @ [e]" "succ1 = succ" by blast
    with ih a have "errs' = errs @ (e # ne) \<and> succ' = succ @ ns \<and>
           length (e # ne) + length ns = length (a # rmap) \<and>
           subseq ns (map (\<lambda>(k, info). success_of info) (a # rmap))"
      by (simp add: list_emb_Cons)
    then show ?thesis by blast
  next
    assume "errs1 = errs \<and> succ1 = succ @ [success_of info]"
    with ih a have "errs' = errs @ ne \<and> succ' = succ @ (success_of info # ns) \<and>
           length ne + length (success_of info # ns) = length (a # rmap) \<and>
           subseq (success_of info # ns) (map (\<lambda>(k, info). success_of info) (a # rmap))"
      by simp
    then show ?thesis by blast
  qed
qed

lemma rename_entry_success:
  assumes "entries fs (old_path info) = Some n" "entries fs (new_path info) = None"
    and "backup \<longrightarrow> n = File \<and> entries fs backup_folder = Some Dir"
  shows "\<exists>fs'. rename_entry backup info (fs, errs, succ) = (fs', errs, succ @ [success_of info]) \<and>
     entries fs' = (entries fs)(old_path info := None, new_path info \<mapsto> n)"
proof -
  from assms(1,2) have ne: "new_path info \<noteq> old_path info" by auto
  from assms(1,2) have pe: "path_exists fs (old_path info)" "\<not> path_exists fs (new_path info)"
    by (simp_all add: path_exists_def)
  show ?thesis
  proof (cases backup)
    case False
    with assms ne pe show ?thesis
      by (simp add: rename_entry_def Let_def os_rename_def)
  next
    case True
    with assms have c: "copy2_backup fs (old_path info) =
        Inr (fs\<lparr>backup_files := insert (old_path info) (backup_files fs)\<rparr>)"
      by (simp add: copy2_backup_def)
    with True assms ne pe show ?thesis
      by (simp add: rename_entry_def Let_def os_rename_def)
  qed
qed


lemma same_sources:
  assumes "\<forall>e\<in>set rmap. entries fs1 (old_path (snd e)) = entries fs (old_path (snd e))"
  shows "missing_in fs1 rmap = missing_in fs rmap" "present_in fs1 rmap = present_in fs rmap"
    "sources_no_dir fs1 rmap = sources_no_dir fs rmap"
  using assms
  by (simp_all add: missing_in_def present_in_def sources_no_dir_def list_all_iff cong: filter_cong)

lemma run_entries_partial:
  assumes "separate_paths rmap" "targets_free fs rmap"
    and "backup \<longrightarrow> entries fs backup_folder = Some Dir \<and> sources_no_dir fs rmap"
  shows "\<exists>fs'. run_entries backup rmap (fs, errs, succ) =
           (fs', errs @ map (\<lambda>e. SourceNotFound (old_path (snd e))) (missing_in fs rmap),
            succ @ map (\<lambda>e. success_of (snd e)) (present_in fs rmap))"
  using assms
proof (induction rmap arbitrary: fs errs succ)
  case Nil
  then show ?case by (simp add: run_entries_Nil missing_in_def present_in_def)
next
  case (Cons a rmap)
  obtain k info where a: "a = (k, info)" by (cases a)
  from Cons.prems(1) a have sep: "separate_paths rmap"
    and o1: "old_path info \<notin> set (map (\<lambda>e. old_path (snd e)) rmap)"
    and o2: "old_path info \<notin> set (map (\<lambda>e. new_path (snd e)) rmap)"
    and n1: "new_path info \<notin> set (map (\<lambda>e. old_path (snd e)) rmap)"
    and n2: "new_path info \<notin> set (map (\<lambda>e. new_path (snd e)) rmap)"
    by (auto simp: separate_paths_def)
  have old_fresh: "old_path (snd e) \<noteq> old_path info \<and> old_path (snd e) \<noteq> new_path info"
    if "e \<in> set rmap" for e
    using that o1 n1 by (metis (no_types, lifting) image_eqI list.set_map)
  have new_fresh: "new_path (snd e) \<noteq> old_path info \<and> new_path (snd e) \<noteq> new_path info"
    if "e \<in> set rmap" for e
    using that o2 n2 by (metis (no_types, lifting) image_eqI list.set_map)
  from Cons.prems(2) a have free: "targets_free fs rmap" and nfree: "entries fs (new_path info) = None"
    by (simp_all add: targets_free_def)
  show ?case
  proof (cases "entries fs (old_path info)")
    case None
    then have st: "rename_entry backup info (fs, errs, succ) =
        (fs, errs @ [SourceNotFound (old_path info)], succ)"
      by (simp add: rename_entry_missing path_exists_def)
    from Cons.prems(3) a have "backup \<longrightarrow> entries fs backup_folder = Some Dir \<and> sources_no_dir fs rmap"
      by (simp add: sources_no_dir_def)
    with sep free obtain fs' where
      "run_entries backup rmap (fs, errs @ [SourceNotFound (old_path info)], succ) =
         (fs', (errs @ [SourceNotFound (old_path info)]) @
            map (\<lambda>e. SourceNotFound (old_path (snd e))) (missing_in fs rmap),
          succ @ map (\<lambda>e. success_of (snd e)) (present_in fs rmap))"
      using Cons.IH by blast
    with st a None show ?thesis
      by (simp add: run_entries_Cons missing_in_def present_in_def)
  next
    case (Some n)
    from Cons.prems(3) a Some have b: "backup \<longrightarrow> n = File \<and> entries fs backup_folder = Some Dir"
      by (cases n) (auto simp: sources_no_dir_def)
    with Some nfree obtain fs1 where
      st: "rename_entry backup info (fs, errs, succ) = (fs1, errs, succ @ [success_of info])"
      and e1: "entries fs1 = (entries fs)(old_path info := None, new_path info \<mapsto> n)"
      using rename_entry_success by blast
    from e1 old_fresh
    have same: "\<forall>e\<in>set rmap. entries fs1 (old_path (snd e)) = entries fs (old_path (snd e))"
      by simp
    from free have "\<forall>e\<in>set rmap. entries fs (new_path (snd e)) = None"
      by (simp add: targets_free_def list_all_iff)
    with e1 new_fresh have free1: "targets_free fs1 rmap"
      by (simp add: targets_free_def list_all_iff)
    have b1: "backup \<longrightarrow> entries fs1 backup_folder = Some Dir \<and> sources_no_dir fs1 rmap"
    proof
      assume bk: backup
      with b Some nfree have "backup_folder \<noteq> old_path info" "backup_folder \<noteq> new_path info"
        by auto
      with e1 b bk have "entries fs1 backup_folder = Some Dir" by simp
      moreover from Cons.prems(3) a bk have "sources_no_dir fs rmap"
        by (simp add: sources_no_dir_def)
      ultimately show "entries fs1 backup_folder = Some Dir \<and> sources_no_dir fs1 rmap"
        using same_sources(3)[OF same] by simp
    qed
    from sep free1 b1 obtain fs' where
      "run_entries backup rmap (fs1, errs, succ @ [success_of info]) =
         (fs', errs @ map (\<lambda>e. SourceNotFound (old_path (snd e))) (missing_in fs1 rmap),
          (succ @ [success_of info]) @ map (\<lambda>e. success_of (snd e)) (present_in fs1 rmap))"
      using Cons.IH by blast
    with st a Some same_sources(1,2)[OF same] show ?thesis
      by (simp add: run_entries_Cons missing_in_def present_in_def)
  qed
qed

lemma perform_renames_accounts:
  assumes "rmap \<noteq> []" "backup \<longrightarrow> entries fs backup_folder \<noteq> Some File"
  shows "\<exists>succ' fs' new_errs. perform_renames backup rmap fs errs = Inr (Some succ', fs', errs @ new_errs) \<and>
           length new_errs + length succ' = length rmap \<and>
           subseq succ' (map (\<lambda>e. success_of (snd e)) rmap)"
proof -
  obtain fs1 where m: "(if backup then mkdir_backup fs else Inr fs) = Inr fs1"
    using assms(2) mkdir_backup_ok[of fs] by (cases backup) auto
  obtain fs2 errs2 succ2 where r: "run_entries backup rmap (fs1, errs, []) = (fs2, errs2, succ2)"
    by (cases "run_entries backup rmap (fs1, errs, [])")
  then obtain ne ns where a: "errs2 = errs @ ne" "succ2 = [] @ ns"
    "length ne + length ns = length rmap"
    "subseq ns (map (\<lambda>(k, info). success_of info) rmap)"
    using run_entries_accounts by blast
  from a(4) have "subseq ns (map (\<lambda>e. success_of (snd e)) rmap)"
    by (simp add: case_prod_unfold)
  with a(1,2,3) show ?thesis using assms(1) m r by (simp add: perform_renames_def)
qed

lemma perform_renames_partial:
  assumes "rmap \<noteq> []" "separate_paths rmap" "targets_free fs rmap"
    and "backup \<longrightarrow> entries fs backup_folder \<noteq> Some File \<and> sources_no_dir fs rmap \<and>
           backup_folder \<notin> set (map (\<lambda>e. old_path (snd e)) rmap @ map (\<lambda>e. new_path (snd e)) rmap)"
  shows "\<exists>fs'. perform_renames backup rmap fs errs =
           Inr (Some (map (\<lambda>e. success_of (snd e)) (present_in fs rmap)), fs',
                errs @ map (\<lambda>e. SourceNotFound (old_path (snd e))) (missing_in fs rmap))"
proof (cases backup)
  case False
  with assms(2,3) obtain fs' where "run_entries backup rmap (fs, errs, []) =
           (fs', errs @ map (\<lambda>e. SourceNotFound (old_path (snd e))) (missing_in fs rmap),
            [] @ map (\<lambda>e. success_of (snd e)) (present_in fs rmap))"
    using run_entries_partial[of rmap fs backup errs "[]"] by blast
  with False assms(1) show ?thesis by (simp add: perform_renames_def)
next
  case True
  with assms(4) obtain fs1 where m: "mkdir_backup fs = Inr fs1" "entries fs1 backup_folder = Some Dir"
    and same: "\<forall>p. p \<noteq> backup_folder \<longrightarrow> entries fs1 p = entries fs p"
    using mkdir_backup_ok[of fs] by blast
  from True assms(4) have o: "backup_folder \<notin> set (map (\<lambda>e. old_path (snd e)) rmap)"
    and n: "backup_folder \<notin> set (map (\<lambda>e. new_path (snd e)) rmap)"
    by simp_all
  have "old_path (snd e) \<noteq> backup_folder \<and> new_path (snd e) \<noteq> backup_folder"
    if "e \<in> set rmap" for e
    using that o n by (metis (no_types, lifting) image_eqI list.set_map)
  then have nb: "\<forall>e\<in>set rmap. old_path (snd e) \<noteq> backup_folder \<and> new_path (snd e) \<noteq> backup_folder"
    by blast
  with same have so: "\<forall>e\<in>set rmap. entries fs1 (old_path (snd e)) = entries fs (old_path (snd e))"
    and sn: "\<forall>e\<in>set rmap. entries fs1 (new_path (snd e)) = entries fs (new_path (snd e))"
    by simp_all
  from sn assms(3) have tf: "targets_free fs1 rmap" by (simp add: targets_free_def list_all_iff)
  from True assms(4) same_sources(3)[OF so] have sd: "sources_no_dir fs1 rmap" by simp
  from assms(2) tf m(2) sd obtain fs' where "run_entries backup rmap (fs1, errs, []) =
           (fs', errs @ map (\<lambda>e. SourceNotFound (old_path (snd e))) (missing_in fs1 rmap),
            [] @ map (\<lambda>e. success_of (snd e)) (present_in fs1 rmap))"
    using run_entries_partial[of rmap fs1 backup errs "[]"] by blast
  with True assms(1) m(1) same_sources(1,2)[OF so] show ?thesis
    by (simp add: perform_renames_def)
qed

text \<open>
  C5. The entries are processed in the order of the map. An entry whose source is
  missing, or whose target is taken by another file, adds one error and leaves the
  folder and the success list as they are; the loop goes on with the entries after
  it. Every entry ends as exactly one new error or one new success, the successes in
  the order of the map. When the paths of the map are all different, the targets free
  and (with a backup) the sources no directories, the successes are exactly the
  entries whose source is present and the errors exactly the missing sources: of three
  entries with one missing source, two are renamed and one is reported.
\<close>

theorem partial_failure:
  "(\<not> path_exists fs (old_path info) \<longrightarrow>
      rename_entry backup info (fs, errs, succ) =
        (fs, errs @ [SourceNotFound (old_path info)], succ)) \<and>
   (path_exists fs (old_path info) \<and> path_exists fs (new_path info) \<and>
    new_path info \<noteq> old_path info \<longrightarrow>
      rename_entry backup info (fs, errs, succ) =
        (fs, errs @ [DestinationExists (new_path info)], succ)) \<and>
   run_entries backup (pre @ (k, info) # post) st =
     run_entries backup post (rename_entry backup info (run_entries backup pre st)) \<and>
   (rmap \<noteq> [] \<and> (backup \<longrightarrow> entries fs backup_folder \<noteq> Some File) \<longrightarrow>
      (\<exists>succ' fs' new_errs.
         perform_renames backup rmap fs errs = Inr (Some succ', fs', errs @ new_errs) \<and>
         length new_errs + length succ' = length rmap \<and>
         subseq succ' (map (\<lambda>e. success_of (snd e)) rmap))) \<and>
   (rmap \<noteq> [] \<and> separate_paths rmap \<and> targets_free fs rmap \<and>
    (backup \<longrightarrow> entries fs backup_folder \<noteq> Some File \<and> sources_no_dir fs rmap \<and>
       backup_folder \<notin> set (map (\<lambda>e. old_path (snd e)) rmap @ map (\<lambda>e. new_path (snd e)) rmap)) \<longrightarrow>
      (\<exists>fs'. perform_renames backup rmap fs errs =
         Inr (Some (map (\<lambda>e. success_of (snd e)) (present_in fs rmap)), fs',
              errs @ map (\<lambda>e. SourceNotFound (old_path (snd e))) (missing_in fs rmap))))"
proof (intro conjI impI)
  assume "\<not> path_exists fs (old_path info)"
  then show "rename_entry backup info (fs, errs, succ) =
        (fs, errs @ [SourceNotFound (old_path info)], succ)"
    by (rule rename_entry_missing)
next
  assume "path_exists fs (old_path info) \<and> path_exists fs (new_path info) \<and>
    new_path info \<noteq> old_path info"
  then show "rename_entry backup info (fs, errs, succ) =
        (fs, errs @ [DestinationExists (new_path info)], succ)"
    by (simp add: rename_entry_occupied)
next
  show "run_entries backup (pre @ (k, info) # post) st =
     run_entries backup post (rename_entry backup info (run_entries backup pre st))"
    by (simp add: run_entries_append run_entries_Cons)
next
  assume "rmap \<noteq> [] \<and> (backup \<longrightarrow> entries fs backup_folder \<noteq> Some File)"
  then show "\<exists>succ' fs' new_errs.
         perform_renames backup rmap fs errs = Inr (Some succ', fs', errs @ new_errs) \<and>
         length new_errs + length succ' = length rmap \<and>
         subseq succ' (map (\<lambda>e. success_of (snd e)) rmap)"
    using perform_renames_accounts by blast
next
  assume "rmap \<noteq> [] \<and> separate_paths rmap \<and> targets_free fs rmap \<and>
    (backup \<longrightarrow> entries fs backup_folder \<noteq> Some File \<and> sources_no_dir fs rmap \<and>
       backup_folder \<notin> set (map (\<lambda>e. old_path (snd e)) rmap @ map (\<lambda>e. new_path (snd e)) rmap))"
  then show "\<exists>fs'. perform_renames backup rmap fs errs =
         Inr (Some (map (\<lambda>e. success_of (snd e)) (present_in fs rmap)), fs',
              errs @ map (\<lambda>e. SourceNotFound (old_path (snd e))) (missing_in fs rmap))"
    using perform_renames_partial[of rmap fs backup errs] by blast
qed

theorem partial_failure_witness:
  "plan_abc \<noteq> [] \<and> separate_paths plan_abc \<and> targets_free folder_ac plan_abc \<and>
   entries folder_ac backup_folder \<noteq> Some File \<and> sources_no_dir folder_ac plan_abc \<and>
   backup_folder \<notin> set (map (\<lambda>e. old_path (snd e)) plan_abc @ map (\<lambda>e. new_path (snd e)) plan_abc) \<and>
   (\<exists>fs'. perform_renames True plan_abc folder_ac [] =
      Inr (Some [\<lparr>r_old = ustr ''A.html'', r_new = ustr ''a.html'', r_referenced = True\<rparr>,
                 \<lparr>r_old = ustr ''C.html'', r_new = ustr ''c.html'', r_referenced = True\<rparr>],
           fs', [SourceNotFound (ustr ''B.html'')]))"
proof -
  have h: "plan_abc \<noteq> []" "separate_paths plan_abc" "targets_free folder_ac plan_abc"
    "entries folder_ac backup_folder \<noteq> Some File" "sources_no_dir folder_ac plan_abc"
    "backup_folder \<notin> set (map (\<lambda>e. old_path (snd e)) plan_abc @ map (\<lambda>e. new_path (snd e)) plan_abc)"
    by (simp_all add: plan_abc_def entry_def folder_ac_def separate_paths_def targets_free_def
        sources_no_dir_def backup_folder_def ustr_def)
  have p: "map (\<lambda>e. success_of (snd e)) (present_in folder_ac plan_abc) =
      [\<lparr>r_old = ustr ''A.html'', r_new = ustr ''a.html'', r_referenced = True\<rparr>,
       \<lparr>r_old = ustr ''C.html'', r_new = ustr ''c.html'', r_referenced = True\<rparr>]"
    by (simp add: present_in_def plan_abc_def entry_def folder_ac_def success_of_def ustr_def)
  have m: "map (\<lambda>e. SourceNotFound (old_path (snd e))) (missing_in folder_ac plan_abc) =
      [SourceNotFound (ustr ''B.html'')]"
    by (simp add: missing_in_def plan_abc_def entry_def folder_ac_def ustr_def)
  from partial_failure [of folder_ac _ True "[]" _ "[]" _ "[]" _ plan_abc] h
  have "\<exists>fs'. perform_renames True plan_abc folder_ac [] =
         Inr (Some (map (\<lambda>e. success_of (snd e)) (present_in folder_ac plan_abc)), fs',
              [] @ map (\<lambda>e. SourceNotFound (old_path (snd e))) (missing_in folder_ac plan_abc))"
    by blast
  with h show ?thesis unfolding p m by simp
qed

theorem backup_folder_created_witness:
  "plan_b \<noteq> [] \<and> entries folder_empty backup_folder \<noteq> Some File \<and>
   (\<exists>succ fs' errs'. perform_renames True plan_b folder_empty [] = Inr (Some succ, fs', errs') \<and>
      entries fs' backup_folder = Some Dir) \<and>
   entries folder_blocked backup_folder = Some File \<and>
   perform_renames True plan_b folder_blocked [] = Inl FileExistsError"
proof -
  have h: "plan_b \<noteq> []" "entries folder_empty backup_folder \<noteq> Some File"
    "entries folder_blocked backup_folder = Some File"
    by (simp_all add: plan_b_def folder_empty_def folder_blocked_def)
  from backup_folder_created [of True folder_empty "[]" plan_b]
    backup_folder_created [of True folder_blocked "[]" plan_b] h
  show ?thesis by blast
qed

theorem backup_folder_blocked_counterexample:
  "\<not> (\<exists>result fs' errs'.
        perform_renames True plan_b folder_blocked [] = Inr (result, fs', errs') \<and>
        entries fs' backup_folder = Some Dir)"
proof -
  have "mkdir_backup folder_blocked = Inl FileExistsError"
    by (rule mkdir_backup_file) (simp add: folder_blocked_def)
  then have "perform_renames True plan_b folder_blocked [] = Inl FileExistsError"
    by (simp add: perform_renames_def plan_b_def)
  then show ?thesis by simp
qed

lemma clean_filename_pagina:
  "clean_filename ucd_latin1 (ustr ''pagina.html'') = ustr ''pagina.html''"
  "clean_filename ucd_latin1 (ustr ''contato.html'') = ustr ''contato.html''"
proof -
  have s: "splitext (ustr ''pagina.html'') = (ustr ''pagina'', ustr ''.html'')"
    "splitext (ustr ''contato.html'') = (ustr ''contato'', ustr ''.html'')"
    by (simp_all add: splitext_def ustr_def)
  have c: "clean_stem ucd_latin1 (ustr ''pagina'') = ustr ''pagina''"
    "clean_stem ucd_latin1 (ustr ''contato'') = ustr ''contato''"
    by (simp_all add: stem_eval)
  show "clean_filename ucd_latin1 (ustr ''pagina.html'') = ustr ''pagina.html''"
    "clean_filename ucd_latin1 (ustr ''contato.html'') = ustr ''contato.html''"
    by (simp_all add: clean_filename_def s c) (simp_all add: ustr_def)
qed

lemma scan_listing_clean:
  "scan_html_files listing_clean = [ustr ''pagina.html'', ustr ''contato.html'']"
  by (simp add: scan_html_files_def listing_clean_def suffix_to_prefix ustr_def)

theorem no_op_run_witness:
  "clean_filename ucd_latin1 (ustr ''pagina.html'') = ustr ''pagina.html'' \<and>
   clean_filename ucd_latin1 (ustr ''contato.html'') = ustr ''contato.html'' \<and>
   scan_html_files listing_clean = [ustr ''pagina.html'', ustr ''contato.html''] \<and>
   plan ucd_latin1 (folder world_clean) [ustr ''pagina.html''] listing_clean = [] \<and>
   run ucd_latin1 [ustr ''pagina.html''] listing_clean
     \<lparr>proceed = True, create_backup = True, update_refs = True\<rparr> world_clean = Inr world_clean"
proof -
  have a: "\<forall>n\<in>set [ustr ''pagina.html'']. clean_filename ucd_latin1 n = n"
    by (simp add: clean_filename_pagina)
  have b: "\<forall>n\<in>set (scan_html_files listing_clean). clean_filename ucd_latin1 n = n"
    by (simp add: scan_listing_clean clean_filename_pagina)
  from no_op_run [OF a b, of world_clean] clean_filename_pagina scan_listing_clean
  show ?thesis by blast
qed

section \<open>Properties of the reference rewriting\<close>

lemma replace_from_absent: "\<not> sublist old s \<Longrightarrow> replace_from old new s = s"
proof (induction s)
  case Nil
  then show ?case by simp
next
  case (Cons c cs)
  then have "\<not> prefix old (c # cs)" "\<not> sublist old cs"
    by (simp_all add: sublist_Cons_right)
  with Cons.IH show ?case by simp
qed

lemma str_replace_absent:
  "old \<noteq> [] \<Longrightarrow> \<not> sublist old s \<Longrightarrow> str_replace old new s = s"
  by (simp add: str_replace_def replace_from_absent)

lemma replace_from_here:
  assumes "old \<noteq> []"
  shows "replace_from old new (old @ rest) = new @ replace_from old new rest"
proof -
  from assms obtain c cs where old: "old = c # cs" by (cases old) auto
  have "replace_from old new (c # (cs @ rest)) =
      new @ replace_from old new (drop (length old - 1) (cs @ rest))"
    by (simp add: old)
  then show ?thesis by (simp add: old)
qed

lemma prefix_short:
  assumes "prefix xs (ys @ zs)" "length xs \<le> length ys"
  shows "prefix xs ys"
  using assms by (auto simp: prefix_append)

lemma replace_from_first:
  assumes "old \<noteq> []" "\<not> sublist old (pre @ butlast old)"
  shows "replace_from old new (pre @ old @ rest) = pre @ new @ replace_from old new rest"
  using assms(2)
proof (induction pre)
  case Nil
  from assms(1) show ?case by (simp add: replace_from_here)
next
  case (Cons c pre)
  from Cons.prems have ns: "\<not> sublist old (pre @ butlast old)"
    by (simp add: sublist_Cons_right)
  have "\<not> prefix old ((c # pre) @ old @ rest)"
  proof
    assume p: "prefix old ((c # pre) @ old @ rest)"
    from assms(1) have "old @ rest = butlast old @ last old # rest"
      by (metis append.assoc append_Cons append_Nil append_butlast_last_id)
    then have "(c # pre) @ old @ rest = ((c # pre) @ butlast old) @ (last old # rest)"
      by simp
    with p have "prefix old (((c # pre) @ butlast old) @ (last old # rest))" by metis
    moreover have "length old \<le> length ((c # pre) @ butlast old)" by simp
    ultimately have "prefix old ((c # pre) @ butlast old)" by (rule prefix_short)
    with Cons.prems show False by auto
  qed
  with Cons.IH[OF ns] show ?case by simp
qed

lemma str_replace_first:
  "old \<noteq> [] \<Longrightarrow> \<not> sublist old (pre @ butlast old) \<Longrightarrow>
   str_replace old new (pre @ old @ rest) = pre @ new @ str_replace old new rest"
  by (simp add: str_replace_def replace_from_first)

lemma update_text_flag_stays: "snd (update_text rs (t, True)) = True"
  by (induction rs arbitrary: t) (simp_all add: update_text_def)

lemma update_text_Cons:
  "update_text (r # rs) (t, u) =
     (if sublist (r_old r) t then update_text rs (str_replace (r_old r) (r_new r) t, True)
      else update_text rs (t, u))"
  by (simp add: update_text_def)

lemma update_text_Nil: "update_text [] st = st"
  by (simp add: update_text_def)

lemma update_text_flag:
  "snd (update_text rs (t, u)) = (u \<or> list_ex (\<lambda>r. sublist (r_old r) t) rs)"
  by (induction rs arbitrary: u) (simp_all add: update_text_Nil update_text_Cons update_text_flag_stays)

lemma update_text_text:
  assumes "\<forall>r\<in>set rs. r_old r \<noteq> []"
  shows "fst (update_text rs (t, u)) = apply_renames rs t"
  using assms
proof (induction rs arbitrary: t u)
  case Nil
  then show ?case by (simp add: update_text_Nil apply_renames_def)
next
  case (Cons r rs)
  then have ih: "\<And>t u. fst (update_text rs (t, u)) = apply_renames rs t" by simp
  from Cons.prems have "r_old r \<noteq> []" by simp
  then have "\<not> sublist (r_old r) t \<Longrightarrow> str_replace (r_old r) (r_new r) t = t"
    by (rule str_replace_absent)
  then show ?case by (auto simp: update_text_Cons ih apply_renames_def)
qed


lemma old_name_occurs_simps:
  "old_name_occurs rs [] = False"
  "old_name_occurs rs (None # locs) = old_name_occurs rs locs"
  "old_name_occurs rs (Some t # locs) =
     ((t \<noteq> [] \<and> list_ex (\<lambda>r. sublist (r_old r) t) rs) \<or> old_name_occurs rs locs)"
  by (simp_all add: old_name_occurs_def)

lemma update_locs_flag:
  "snd (update_locs rs locs u) = (u \<or> old_name_occurs rs locs)"
proof (induction locs arbitrary: u)
  case Nil
  then show ?case by (simp add: old_name_occurs_simps)
next
  case (Cons l locs)
  show ?case
  proof (cases l)
    case None
    with Cons.IH show ?thesis by (simp add: case_prod_beta old_name_occurs_simps)
  next
    case (Some t)
    with Cons.IH show ?thesis
      by (auto simp: case_prod_beta old_name_occurs_simps update_text_flag)
  qed
qed

lemma apply_renames_empty:
  "\<forall>r\<in>set rs. r_old r \<noteq> [] \<Longrightarrow> apply_renames rs [] = []"
  by (induction rs) (simp_all add: apply_renames_def str_replace_def)

lemma update_locs_texts:
  assumes "\<forall>r\<in>set rs. r_old r \<noteq> []"
  shows "fst (update_locs rs locs u) = map (map_option (apply_renames rs)) locs"
proof (induction locs arbitrary: u)
  case Nil
  then show ?case by simp
next
  case (Cons l locs)
  show ?case
  proof (cases l)
    case None
    with Cons.IH show ?thesis by (simp add: case_prod_beta)
  next
    case (Some t)
    with Cons.IH assms show ?thesis
      by (simp add: case_prod_beta update_text_text apply_renames_empty)
  qed
qed

lemma apply_renames_absent:
  assumes "\<forall>r\<in>set rs. r_old r \<noteq> [] \<and> \<not> sublist (r_old r) t"
  shows "apply_renames rs t = t"
  using assms by (induction rs) (simp_all add: apply_renames_def str_replace_absent)

lemma texts_unchanged:
  assumes "\<forall>r\<in>set rs. r_old r \<noteq> []" "\<not> old_name_occurs rs locs"
  shows "map (map_option (apply_renames rs)) locs = locs"
proof -
  have "map_option (apply_renames rs) l = l" if "l \<in> set locs" for l
  proof (cases l)
    case None
    then show ?thesis by simp
  next
    case (Some t)
    show ?thesis
    proof (cases "t = []")
      case True
      with assms(1) have "apply_renames rs t = t" by (intro apply_renames_absent) simp
      with Some show ?thesis by simp
    next
      case False
      with assms(2) that Some have "\<forall>r\<in>set rs. \<not> sublist (r_old r) t"
        by (auto simp: old_name_occurs_def list_ex_iff)
      with assms(1) have "apply_renames rs t = t" by (intro apply_renames_absent) simp
      with Some show ?thesis by simp
    qed
  qed
  then show ?thesis by (simp add: map_idI)
qed

lemma update_sitemap_flag:
  "snd (update_sitemap rs sm) =
     (old_name_occurs rs (ns_locs sm) \<or> old_name_occurs rs (plain_locs sm))"
proof -
  obtain ns' u1 where a: "update_locs rs (ns_locs sm) False = (ns', u1)"
    by (cases "update_locs rs (ns_locs sm) False")
  then have u1: "u1 = old_name_occurs rs (ns_locs sm)"
    using update_locs_flag[of rs "ns_locs sm" False] by simp
  obtain pl' u2 where b: "update_locs rs (plain_locs sm) False = (pl', u2)"
    by (cases "update_locs rs (plain_locs sm) False")
  then have u2: "u2 = old_name_occurs rs (plain_locs sm)"
    using update_locs_flag[of rs "plain_locs sm" False] by simp
  from a b u1 u2 show ?thesis by (auto simp: update_sitemap_def)
qed

lemma update_sitemap_texts:
  assumes "\<forall>r\<in>set rs. r_old r \<noteq> []"
  shows "fst (update_sitemap rs sm) =
     \<lparr>ns_locs = map (map_option (apply_renames rs)) (ns_locs sm),
      plain_locs = (if old_name_occurs rs (ns_locs sm) then plain_locs sm
                    else map (map_option (apply_renames rs)) (plain_locs sm))\<rparr>"
proof -
  obtain ns' u1 where a: "update_locs rs (ns_locs sm) False = (ns', u1)"
    by (cases "update_locs rs (ns_locs sm) False")
  then have u1: "u1 = old_name_occurs rs (ns_locs sm)"
    and ns': "ns' = map (map_option (apply_renames rs)) (ns_locs sm)"
    using update_locs_flag[of rs "ns_locs sm" False] update_locs_texts[OF assms, of "ns_locs sm" False]
    by simp_all
  obtain pl' u2 where b: "update_locs rs (plain_locs sm) False = (pl', u2)"
    by (cases "update_locs rs (plain_locs sm) False")
  then have pl': "pl' = map (map_option (apply_renames rs)) (plain_locs sm)"
    using update_locs_texts[OF assms, of "plain_locs sm" False] by simp
  from a b u1 ns' pl' show ?thesis by (auto simp: update_sitemap_def)
qed

lemma update_references_index:
  "index_doc w = Content c \<Longrightarrow>
   index_doc (update_references rs w) = Content (update_index rs c)"
  by (simp add: update_references_def Let_def case_prod_beta split: doc.splits)

lemma update_references_sitemap:
  assumes "sitemap_doc w = Content sm"
  shows "sitemap_doc (update_references rs w) =
     (if snd (update_sitemap rs sm) then Content (fst (update_sitemap rs sm)) else Content sm)"
  using assms
  by (simp add: update_references_def Let_def case_prod_beta split: doc.splits)

lemma update_references_written:
  assumes "sitemap_doc w = Content sm"
  shows "written (update_references rs w) =
     written w @ (case index_doc w of Content c \<Rightarrow> [ustr ''index.html''] | _ \<Rightarrow> []) @
     (if snd (update_sitemap rs sm) then [ustr ''sitemap.xml''] else [])"
  using assms
  by (simp add: update_references_def Let_def case_prod_beta split: doc.splits)

text \<open>
  C8. The sitemap is written back exactly when a substitution took place in the text
  of some location element, which is the case exactly when the old name of some
  successful rename occurs in the text of some location element; when no old name
  occurs in any of them, \<open>update_references\<close> leaves the sitemap as it was and does not
  write it.
\<close>

theorem sitemap_written_iff:
  assumes "sitemap_doc w = Content sm"
  shows "snd (update_sitemap rs sm) =
           (old_name_occurs rs (ns_locs sm) \<or> old_name_occurs rs (plain_locs sm)) \<and>
         written (update_references rs w) =
           written w @ (case index_doc w of Content c \<Rightarrow> [ustr ''index.html''] | _ \<Rightarrow> []) @
           (if old_name_occurs rs (ns_locs sm) \<or> old_name_occurs rs (plain_locs sm)
            then [ustr ''sitemap.xml''] else []) \<and>
         (\<not> (old_name_occurs rs (ns_locs sm) \<or> old_name_occurs rs (plain_locs sm)) \<longrightarrow>
            sitemap_doc (update_references rs w) = Content sm)"
  using update_references_written[OF assms, of rs] update_references_sitemap[OF assms, of rs]
  by (simp add: update_sitemap_flag)

lemma update_index_snoc:
  "update_index (rs @ [r]) c =
     str_replace (href_sq (r_old r)) (href_sq (r_new r))
       (str_replace (href_dq (r_old r)) (href_dq (r_new r)) (update_index rs c))"
  by (simp add: update_index_def)

lemma apply_renames_snoc:
  "apply_renames (rs @ [r]) t = str_replace (r_old r) (r_new r) (apply_renames rs t)"
  by (simp add: apply_renames_def)

text \<open>
  C7. The renames are applied in the order of the list. In the index, each rename
  replaces every occurrence of \<open>href="old_name"\<close> and of \<open>href='old_name'\<close>, from the
  left and without overlap, in the text the earlier renames left. In the sitemap, the
  text of every location element found with the namespace has, for each rename in
  turn, every occurrence of the old name replaced by the new name; the elements found
  without the namespace are rewritten in the same way only when no element with the
  namespace held an old name, and are left as they are otherwise.
\<close>

theorem references_rewritten:
  "(old \<noteq> [] \<and> \<not> sublist old s \<longrightarrow> str_replace old new s = s) \<and>
   (old \<noteq> [] \<and> \<not> sublist old (pre @ butlast old) \<longrightarrow>
      str_replace old new (pre @ old @ rest) = pre @ new @ str_replace old new rest) \<and>
   update_index (rs @ [r]) c =
     str_replace (href_sq (r_old r)) (href_sq (r_new r))
       (str_replace (href_dq (r_old r)) (href_dq (r_new r)) (update_index rs c)) \<and>
   apply_renames (rs @ [r]) t = str_replace (r_old r) (r_new r) (apply_renames rs t) \<and>
   (index_doc w = Content c \<longrightarrow>
      index_doc (update_references rs w) = Content (update_index rs c)) \<and>
   (sitemap_doc w = Content sm \<and> list_all (\<lambda>r. r_old r \<noteq> []) rs \<longrightarrow>
      sitemap_doc (update_references rs w) =
        Content \<lparr>ns_locs = map (map_option (apply_renames rs)) (ns_locs sm),
                 plain_locs = (if old_name_occurs rs (ns_locs sm) then plain_locs sm
                               else map (map_option (apply_renames rs)) (plain_locs sm))\<rparr>)"
proof (intro conjI impI)
  assume "old \<noteq> [] \<and> \<not> sublist old s"
  then show "str_replace old new s = s" by (simp add: str_replace_absent)
next
  assume "old \<noteq> [] \<and> \<not> sublist old (pre @ butlast old)"
  then show "str_replace old new (pre @ old @ rest) = pre @ new @ str_replace old new rest"
    by (simp add: str_replace_first)
next
  show "update_index (rs @ [r]) c =
     str_replace (href_sq (r_old r)) (href_sq (r_new r))
       (str_replace (href_dq (r_old r)) (href_dq (r_new r)) (update_index rs c))"
    by (rule update_index_snoc)
next
  show "apply_renames (rs @ [r]) t = str_replace (r_old r) (r_new r) (apply_renames rs t)"
    by (rule apply_renames_snoc)
next
  assume "index_doc w = Content c"
  then show "index_doc (update_references rs w) = Content (update_index rs c)"
    by (rule update_references_index)
next
  assume a: "sitemap_doc w = Content sm \<and> list_all (\<lambda>r. r_old r \<noteq> []) rs"
  then have ne: "\<forall>r\<in>set rs. r_old r \<noteq> []" by (simp add: list_all_iff)
  let ?sm' = "\<lparr>ns_locs = map (map_option (apply_renames rs)) (ns_locs sm),
                 plain_locs = (if old_name_occurs rs (ns_locs sm) then plain_locs sm
                               else map (map_option (apply_renames rs)) (plain_locs sm))\<rparr>"
  have f: "fst (update_sitemap rs sm) = ?sm'" using ne by (rule update_sitemap_texts)
  show "sitemap_doc (update_references rs w) = Content ?sm'"
  proof (cases "snd (update_sitemap rs sm)")
    case True
    with a f show ?thesis by (simp add: update_references_sitemap)
  next
    case False
    then have "\<not> old_name_occurs rs (ns_locs sm)" "\<not> old_name_occurs rs (plain_locs sm)"
      by (simp_all add: update_sitemap_flag)
    with ne have "?sm' = sm" by (simp add: texts_unchanged)
    with a False show ?thesis by (simp add: update_references_sitemap)
  qed
qed

lemmas refs_eval = pagina_acc_def r_pagina_def url_old_def url_new_def url_other_def
  index_text_def href_dq_def href_sq_def ustr_def

lemma occurs_url_old: "sublist pagina_acc url_old"
  by (simp add: url_old_def)

lemma occurs_url_other: "\<not> sublist pagina_acc url_other"
  by (simp add: refs_eval sublist_Cons_right)

lemma replace_url_old: "str_replace pagina_acc (ustr ''pagina.html'') url_old = url_new"
  by (simp add: str_replace_def refs_eval)

lemma pagina_acc_nonempty: "pagina_acc \<noteq> []"
  by (simp add: pagina_acc_def)

lemma update_index_pagina:
  "update_index [r_pagina] (index_text pagina_acc) = index_text (ustr ''pagina.html'')"
  by (simp add: update_index_def str_replace_def refs_eval)


lemma url_old_nonempty: "url_old \<noteq> []"
  by (simp add: url_old_def ustr_def)

lemma occurs_ns: "old_name_occurs [r_pagina] (ns_locs sitemap_ns)"
  by (simp add: old_name_occurs_def sitemap_ns_def r_pagina_def occurs_url_old url_old_nonempty)

lemma occurs_other:
  "\<not> old_name_occurs [r_pagina] (ns_locs sitemap_other)"
  "\<not> old_name_occurs [r_pagina] (plain_locs sitemap_other)"
  using occurs_url_other
  by (simp_all add: old_name_occurs_def sitemap_other_def r_pagina_def)

lemma apply_renames_pagina:
  "apply_renames [r_pagina] url_old = url_new"
  "apply_renames [r_pagina] url_other = url_other"
  using replace_url_old occurs_url_other pagina_acc_nonempty
  by (simp_all add: apply_renames_def r_pagina_def str_replace_absent)

theorem sitemap_written_iff_witness:
  "sitemap_doc (world_refs sitemap_ns) = Content sitemap_ns \<and>
   old_name_occurs [r_pagina] (ns_locs sitemap_ns) \<and>
   written (update_references [r_pagina] (world_refs sitemap_ns)) =
     [ustr ''index.html'', ustr ''sitemap.xml''] \<and>
   sitemap_doc (world_refs sitemap_other) = Content sitemap_other \<and>
   \<not> old_name_occurs [r_pagina] (ns_locs sitemap_other) \<and>
   \<not> old_name_occurs [r_pagina] (plain_locs sitemap_other) \<and>
   written (update_references [r_pagina] (world_refs sitemap_other)) = [ustr ''index.html''] \<and>
   sitemap_doc (update_references [r_pagina] (world_refs sitemap_other)) = Content sitemap_other"
proof -
  have a: "sitemap_doc (world_refs sitemap_ns) = Content sitemap_ns"
    and b: "sitemap_doc (world_refs sitemap_other) = Content sitemap_other"
    by (simp_all add: world_refs_def)
  from sitemap_written_iff [OF a, of "[r_pagina]"] occurs_ns
  have 1: "written (update_references [r_pagina] (world_refs sitemap_ns)) =
     [ustr ''index.html'', ustr ''sitemap.xml'']"
    by (simp add: world_refs_def)
  from sitemap_written_iff [OF b, of "[r_pagina]"] occurs_other
  have 2: "written (update_references [r_pagina] (world_refs sitemap_other)) = [ustr ''index.html'']"
    and 3: "sitemap_doc (update_references [r_pagina] (world_refs sitemap_other)) =
      Content sitemap_other"
    by (simp_all add: world_refs_def)
  from a b 1 2 3 occurs_ns occurs_other show ?thesis by simp
qed

theorem references_rewritten_witness:
  "href_dq pagina_acc \<noteq> [] \<and>
   \<not> sublist (href_dq pagina_acc) (ustr ''<a '' @ butlast (href_dq pagina_acc)) \<and>
   \<not> sublist (href_dq pagina_acc) (ustr ''>1</a>'') \<and>
   str_replace (href_dq pagina_acc) (href_dq (ustr ''pagina.html''))
     (ustr ''<a '' @ href_dq pagina_acc @ ustr ''>1</a>'') =
     ustr ''<a '' @ href_dq (ustr ''pagina.html'') @ ustr ''>1</a>'' \<and>
   index_doc (world_refs sitemap_ns) = Content (index_text pagina_acc) \<and>
   index_doc (update_references [r_pagina] (world_refs sitemap_ns)) =
     Content (index_text (ustr ''pagina.html'')) \<and>
   sitemap_doc (world_refs sitemap_ns) = Content sitemap_ns \<and>
   list_all (\<lambda>r. r_old r \<noteq> []) [r_pagina] \<and>
   sitemap_doc (update_references [r_pagina] (world_refs sitemap_ns)) =
     Content \<lparr>ns_locs = [Some url_new, Some url_other], plain_locs = []\<rparr>"
proof -
  have h: "href_dq pagina_acc \<noteq> []"
    "\<not> sublist (href_dq pagina_acc) (ustr ''<a '' @ butlast (href_dq pagina_acc))"
    "\<not> sublist (href_dq pagina_acc) (ustr ''>1</a>'')"
    by (simp_all add: refs_eval sublist_Cons_right)
  have w: "index_doc (world_refs sitemap_ns) = Content (index_text pagina_acc)"
    "sitemap_doc (world_refs sitemap_ns) = Content sitemap_ns"
    "list_all (\<lambda>r. r_old r \<noteq> []) [r_pagina]"
    by (simp_all add: world_refs_def r_pagina_def pagina_acc_nonempty)
  note th1 = references_rewritten [of "href_dq pagina_acc" "ustr ''>1</a>''"
      "href_dq (ustr ''pagina.html'')" "ustr ''<a ''" "ustr ''>1</a>''" "[]" r_pagina
      "index_text pagina_acc" url_old "world_refs sitemap_ns" sitemap_ns]
  from th1 h have 1: "str_replace (href_dq pagina_acc) (href_dq (ustr ''pagina.html''))
     (ustr ''<a '' @ href_dq pagina_acc @ ustr ''>1</a>'') =
     ustr ''<a '' @ href_dq (ustr ''pagina.html'') @ ustr ''>1</a>''"
    by simp
  note th2 = references_rewritten [of "href_dq pagina_acc" "ustr ''>1</a>''"
      "href_dq (ustr ''pagina.html'')" "ustr ''<a ''" "ustr ''>1</a>''" "[r_pagina]" r_pagina
      "index_text pagina_acc" url_old "world_refs sitemap_ns" sitemap_ns]
  from th2 w have 2: "index_doc (update_references [r_pagina] (world_refs sitemap_ns)) =
     Content (index_text (ustr ''pagina.html''))"
    by (simp add: update_index_pagina)
  from th2 w have 3: "sitemap_doc (update_references [r_pagina] (world_refs sitemap_ns)) =
     Content \<lparr>ns_locs = [Some url_new, Some url_other], plain_locs = []\<rparr>"
    by (simp add: sitemap_ns_def apply_renames_pagina)
  from h w 1 2 3 show ?thesis by simp
qed

theorem plain_loc_left_counterexample:
  "sitemap_doc (update_references [r_pagina] (world_refs sitemap_mixed)) =
     Content \<lparr>ns_locs = [Some url_new], plain_locs = [Some url_old]\<rparr> \<and>
   sublist (r_old r_pagina) url_old"
proof -
  have ne: "\<forall>r\<in>set [r_pagina]. r_old r \<noteq> []" by (simp add: r_pagina_def pagina_acc_nonempty)
  have oc: "old_name_occurs [r_pagina] (ns_locs sitemap_mixed)"
    by (simp add: old_name_occurs_def sitemap_mixed_def r_pagina_def occurs_url_old
        url_old_nonempty)
  have "sitemap_doc (world_refs sitemap_mixed) = Content sitemap_mixed"
    by (simp add: world_refs_def)
  then have "sitemap_doc (update_references [r_pagina] (world_refs sitemap_mixed)) =
      Content (fst (update_sitemap [r_pagina] sitemap_mixed))"
    using oc by (simp add: update_references_sitemap update_sitemap_flag)
  also have "fst (update_sitemap [r_pagina] sitemap_mixed) =
      \<lparr>ns_locs = [Some url_new], plain_locs = [Some url_old]\<rparr>"
    using oc by (simp add: update_sitemap_texts[OF ne]) (simp add: sitemap_mixed_def apply_renames_pagina)
  finally show ?thesis using occurs_url_old by (simp add: r_pagina_def)
qed

end
